theory Spec2Isabelle
  imports Main "HOL-Library.AList"
begin

section \<open>The grouper plugin of hyde (hyde/ext/plugins/grouper.py)\<close>

subsection \<open>Configuration\<close>

text \<open>
  A grouping specification is the attribute dictionary of a configuration object. It is
  kept as the list of its entries in the order in which the dictionary iterates them,
  because \<open>Group.__init__\<close> copies the entries one at a time and the copy of the
  \<open>groups\<close> entry constructs the child groups on the spot. The entries follow the
  documented configuration: \<open>Name n\<close> is the entry \<open>name: n\<close>, \<open>Sorter x\<close> is
  \<open>sorter: x\<close>, \<open>Groups gs\<close> is \<open>groups: [...]\<close> and \<open>Other k v\<close> is any further
  descriptive entry \<open>k: v\<close> (a key other than the attributes of a group).
\<close>

datatype item = Name string | Sorter string | Groups "grouping list" | Other string string
and grouping = Grouping (items: "item list")

fun key :: "item \<Rightarrow> string" where
  "key (Name _) = ''name''"
| "key (Sorter _) = ''sorter''"
| "key (Groups _) = ''groups''"
| "key (Other k _) = k"

text \<open>
  A dictionary holds every key once, and a descriptive entry does not use the name of an
  attribute that \<open>Group\<close> manages itself. It may use the name of a method: the copy
  then hides the method on that object (see \<open>shadowed\<close> below).
\<close>

fun wf_grouping :: "grouping \<Rightarrow> bool"
  and wf_item :: "item \<Rightarrow> bool" where
  "wf_grouping (Grouping d) = (distinct (map key d) \<and> (\<forall>kv \<in> set d. wf_item kv))"
| "wf_item (Groups val) = (\<forall>g \<in> set val. wf_grouping g)"
| "wf_item (Other k v) = (k \<notin> {''name'', ''sorter'', ''groups'', ''parent'', ''root''})"
| "wf_item _ = True"

text \<open>\<open>getattr(grouping, 'sorter', None)\<close>\<close>

fun getattr_sorter :: "item list \<Rightarrow> string option" where
  "getattr_sorter [] = None"
| "getattr_sorter (Sorter x # d) = Some x"
| "getattr_sorter (_ # d) = getattr_sorter d"

subsection \<open>Group objects, the Node class and the interpreter state\<close>

text \<open>
  A \<open>Group\<close> object lives in a store and is named by its address, so that \<open>parent\<close>
  and \<open>root\<close> are references as in the source. The store is a list: the address of an
  object is its index, and a new object is appended.
\<close>

record group =
  name :: string
  parent :: "nat option"
  root :: nat
  groups :: "nat list"
  sorter :: "string option"
  extra :: "(string \<times> string) list"

text \<open>
  The methods that \<open>add_method\<close> attaches to the class \<open>Node\<close> are the two static
  methods of \<open>Group\<close> with the keyword argument \<open>group\<close> bound to an object.
\<close>

datatype capability = Walk_groups_in_node nat | Walk_resources nat

record state =
  heap :: "group list"
  node_methods :: "string \<rightharpoonup> capability"

text \<open>
  Modelled from the spec: \<open>hyde.util.add_method\<close> is not part of the sources at hand.
  The capabilities are attached to the Node type itself, shared by all node instances, and
  attaching a capability under a name that is already taken overwrites the earlier one.
\<close>

definition add_method :: "string \<Rightarrow> capability \<Rightarrow> state \<Rightarrow> state" where
  "add_method method_name m s = s\<lparr>node_methods := (node_methods s)(method_name \<mapsto> m)\<rparr>"

text \<open>Assignment to the attributes of the object at address \<open>self\<close>.\<close>

definition setattr :: "nat \<Rightarrow> (group \<Rightarrow> group) \<Rightarrow> state \<Rightarrow> state" where
  "setattr self f s = s\<lparr>heap := (heap s)[self := f (heap s ! self)]\<rparr>"

subsection \<open>Construction: \<open>Group.__init__\<close> and \<open>Group.set_expando\<close>\<close>

text \<open>
  Lines 24 to 31 of \<open>__init__\<close>: the new object gets its address and its first
  attribute values. \<open>hasattr(parent, 'sorter')\<close> holds exactly when a parent is given,
  since every \<open>Group\<close> has the attribute from its own construction on.
\<close>

definition new_group :: "item list \<Rightarrow> nat option \<Rightarrow> state \<Rightarrow> state" where
  "new_group grouping par s =
     (let self = length (heap s);
          obj = \<lparr>name = ''groups'', parent = par, root = self, groups = [],
                 sorter = None, extra = []\<rparr>;
          obj = obj\<lparr>root := (case par of Some p \<Rightarrow> root (heap s ! p) | None \<Rightarrow> self)\<rparr>;
          obj = obj\<lparr>sorter := getattr_sorter grouping\<rparr>;
          obj = (case par of Some p \<Rightarrow> obj\<lparr>sorter := sorter (heap s ! p)\<rparr> | None \<Rightarrow> obj)
      in s\<lparr>heap := heap s @ [obj]\<rparr>)"

text \<open>
  The method names \<open>'walk_%s_groups' % self.name\<close> and
  \<open>'walk_resources_grouped_by_%s' % self.name\<close>.
\<close>

definition groups_method :: "string \<Rightarrow> string" where
  "groups_method n = ''walk_'' @ n @ ''_groups''"

definition resources_method :: "string \<Rightarrow> string" where
  "resources_method n = ''walk_resources_grouped_by_'' @ n"

text \<open>Lines 34 to 41 of \<open>__init__\<close>: the two capabilities, under the name of the group.\<close>

definition attach_capabilities :: "nat \<Rightarrow> state \<Rightarrow> state" where
  "attach_capabilities self s =
     (let s = add_method (groups_method (name (heap s ! self))) (Walk_groups_in_node self) s
      in add_method (resources_method (name (heap s ! self))) (Walk_resources self) s)"

text \<open>
  Modelled from the spec: \<open>hyde.model.Expando\<close> is not part of the sources at hand. Its
  constructor copies all fields of the grouping onto the object, one \<open>set_expando\<close> call
  per entry (\<open>Expando_update\<close>), and its own \<open>set_expando\<close> stores the value verbatim
  as a dynamic field.

  \<open>Group.set_expando\<close> overrides it for the key \<open>groups\<close> and builds one child
  \<open>Group\<close> per entry, with \<open>parent=self\<close> (\<open>make_groups\<close> is the list comprehension).
\<close>

function (sequential) Group_init :: "grouping \<Rightarrow> nat option \<Rightarrow> state \<Rightarrow> nat \<times> state"
  and Expando_update :: "item list \<Rightarrow> nat \<Rightarrow> state \<Rightarrow> state"
  and set_expando :: "item \<Rightarrow> nat \<Rightarrow> state \<Rightarrow> state"
  and make_groups :: "grouping list \<Rightarrow> nat \<Rightarrow> state \<Rightarrow> nat list \<times> state"
where
  "Group_init (Grouping d) par s =
     (length (heap s),
      attach_capabilities (length (heap s))
        (Expando_update d (length (heap s)) (new_group d par s)))"
| "Expando_update [] self s = s"
| "Expando_update (kv # d) self s = Expando_update d self (set_expando kv self s)"
| "set_expando (Groups val) self s =
     (case make_groups val self s of
        (gs, s') \<Rightarrow> setattr self (\<lambda>g. g\<lparr>groups := gs\<rparr>) s')"
| "set_expando (Name v) self s = setattr self (\<lambda>g. g\<lparr>name := v\<rparr>) s"
| "set_expando (Sorter v) self s = setattr self (\<lambda>g. g\<lparr>sorter := Some v\<rparr>) s"
| "set_expando (Other k v) self s =
     setattr self (\<lambda>g. g\<lparr>extra := AList.update k v (extra g)\<rparr>) s"
| "make_groups [] self s = ([], s)"
| "make_groups (grp # val) self s =
     (case Group_init grp (Some self) s of
        (g, s') \<Rightarrow> (case make_groups val self s' of
           (gs, s'') \<Rightarrow> (g # gs, s'')))"
  by pat_completeness auto
termination
  by (relation "measure (\<lambda>x. case x of
        Inl (Inl (g, _, _)) \<Rightarrow> 2 * size g
      | Inl (Inr (d, _, _)) \<Rightarrow> 2 * size_list size d + 1
      | Inr (Inl (kv, _, _)) \<Rightarrow> 2 * size kv
      | Inr (Inr (val, _, _)) \<Rightarrow> 2 * size_list size val + 1)") auto

subsection \<open>Traversal\<close>

text \<open>
  The traversals are generators. The model gives the outcome of running one to its end:
  \<open>Inl e\<close> when the run raises \<open>e\<close>, \<open>Inr (Some xs)\<close> when it ends and has yielded
  \<open>xs\<close>, and \<open>Inr None\<close> when the fuel does not suffice to reach the end (the store
  could hold a cycle, and an attached capability can call itself: a run that no fuel
  ends is one that nests calls without bound).
\<close>

datatype error = AttributeError | TypeError

text \<open>
  A method that is called through a group object, as in \<open>group.walk_groups()\<close>: a
  dynamic attribute of the same name, copied from the configuration, hides the method, and
  the call of its value, a string, raises \<open>TypeError\<close>.
\<close>

definition shadowed :: "group list \<Rightarrow> nat \<Rightarrow> string \<Rightarrow> bool" where
  "shadowed h g m = (case map_of (extra (h ! g)) m of None \<Rightarrow> False | Some _ \<Rightarrow> True)"

text \<open>
  The body of \<open>Group.walk_groups\<close>; \<open>walk_groups_list\<close> is its loop over
  \<open>self.groups\<close>, with the call \<open>group.walk_groups()\<close> of line 84.
\<close>

fun walk_groups :: "nat \<Rightarrow> group list \<Rightarrow> nat \<Rightarrow> error + nat list option"
  and walk_groups_list :: "nat \<Rightarrow> group list \<Rightarrow> nat list \<Rightarrow> error + nat list option" where
  "walk_groups 0 h self = Inr None"
| "walk_groups (Suc n) h self =
     (case walk_groups_list n h (groups (h ! self)) of
        Inl e \<Rightarrow> Inl e
      | Inr None \<Rightarrow> Inr None
      | Inr (Some children) \<Rightarrow> Inr (Some (self # children)))"
| "walk_groups_list n h [] = Inr (Some [])"
| "walk_groups_list n h (g # gs) =
     (if shadowed h g ''walk_groups'' then Inl TypeError
      else case walk_groups n h g of
        Inl e \<Rightarrow> Inl e
      | Inr None \<Rightarrow> Inr None
      | Inr (Some xs) \<Rightarrow> (case walk_groups_list n h gs of
           Inl e \<Rightarrow> Inl e
         | Inr None \<Rightarrow> Inr None
         | Inr (Some ys) \<Rightarrow> Inr (Some (xs @ ys))))"

text \<open>
  Resources and nodes belong to the host site model. A resource has an identity and may
  have a \<open>meta\<close> object with fields; a field holds a string or some other value. A node
  offers \<open>walk_resources\<close> and further callables by attribute name, among them the
  sorted walks that a sorter plugin provides.
\<close>

datatype meta_value = MStr string | MOther

record resource =
  path :: string
  meta :: "(string \<times> meta_value) list option"

record node =
  walk_resources :: "resource list"
  node_attrs :: "(string \<times> resource list) list"

text \<open>\<open>getattr(resource.meta, field)\<close>; \<open>None\<close> is the \<open>AttributeError\<close>.\<close>

definition getattr_meta :: "resource \<Rightarrow> string \<Rightarrow> meta_value option" where
  "getattr_meta r field = (case meta r of None \<Rightarrow> None | Some m \<Rightarrow> map_of m field)"

text \<open>
  \<open>getattr(node, walker, default)\<close>. A capability that \<open>add_method\<close> has attached to
  the class \<open>Node\<close> under the name is found first, since the attachment overwrites what
  the class had; otherwise the attribute is one that the host gives the node.
\<close>

datatype walker = Host_walker "resource list" | Attached capability

definition getattr_node :: "state \<Rightarrow> node \<Rightarrow> string \<Rightarrow> walker \<Rightarrow> walker" where
  "getattr_node s nd walker dflt =
     (case node_methods s walker of
        Some m \<Rightarrow> Attached m
      | None \<Rightarrow>
          if walker = ''walk_resources'' then Host_walker (walk_resources nd)
          else case map_of (node_attrs nd) walker of
                 Some w \<Rightarrow> Host_walker w
               | None \<Rightarrow> dflt)"

text \<open>Lines 93 to 96 of \<open>list_resources\<close>: the choice of the node traversal.\<close>

definition resolve_walker :: "state \<Rightarrow> nat \<Rightarrow> node \<Rightarrow> walker" where
  "resolve_walker s self nd =
     (let walker = ''walk_resources'';
          walker = (case sorter (heap s ! self) of
                      Some x \<Rightarrow> if x \<noteq> [] then ''walk_resources_sorted_by_'' @ x else walker
                    | None \<Rightarrow> walker)
      in getattr_node s nd walker (getattr_node s nd ''walk_resources'' (Host_walker [])))"

text \<open>Lines 97 to 103: the loop over the resources that the walker produces.\<close>

fun list_resources_loop :: "string \<Rightarrow> string \<Rightarrow> resource list \<Rightarrow> resource list" where
  "list_resources_loop field nm [] = []"
| "list_resources_loop field nm (r # rs) =
     (case getattr_meta r field of
        None \<Rightarrow> list_resources_loop field nm rs
      | Some group_value \<Rightarrow>
          if group_value = MStr nm then r # list_resources_loop field nm rs
          else list_resources_loop field nm rs)"

text \<open>
  The inner loop of \<open>walk_groups_in_node\<close>, \<open>for r in lister: yield g; break\<close>: what
  it yields, and the resources that it takes from the lister.
\<close>

fun first_resource :: "nat \<Rightarrow> resource list \<Rightarrow> nat list \<times> resource list" where
  "first_resource g [] = ([], [])"
| "first_resource g (r # lister) = ([g], [r])"

text \<open>
  Lines 97 to 103 on what the walker yields. When the walker is an attached
  \<open>walk_groups_in_node\<close>, it yields group objects. A group object has no attribute
  \<open>meta\<close> of its own; where a descriptive entry \<open>meta\<close> gives it one, the value is a
  string, and the lookup of the field on a string fails or gives a value that is not the
  name of a group (the documentation text of the string type is not taken to be the name
  of a group). So line 101 or line 102 skips each of them.
\<close>

datatype yielded = Yield_groups "nat list" | Yield_resources "resource list"

fun match_yielded :: "string \<Rightarrow> string \<Rightarrow> yielded \<Rightarrow> resource list" where
  "match_yielded field nm (Yield_resources rs) = list_resources_loop field nm rs"
| "match_yielded field nm (Yield_groups gs) = []"

text \<open>
  \<open>Group.list_resources\<close> and the two static methods that are attached to \<open>Node\<close>,
  \<open>Group.walk_resources(node, group)\<close> and \<open>Group.walk_groups_in_node(node, group)\<close>.
  They depend on each other, because the walker of \<open>list_resources\<close> can be an attached
  capability: \<open>run_walker\<close> is the call \<open>walker()\<close> and \<open>call\<close> runs a capability.
  The calls \<open>group.walk_groups()\<close> and \<open>group.list_resources(node)\<close> of lines 60, 61,
  70 and 72 go through the group object.
\<close>

function (sequential) list_resources :: "nat \<Rightarrow> state \<Rightarrow> nat \<Rightarrow> node \<Rightarrow> error + resource list option"
  and run_walker :: "walker \<Rightarrow> nat \<Rightarrow> state \<Rightarrow> node \<Rightarrow> error + yielded option"
  and call :: "capability \<Rightarrow> nat \<Rightarrow> state \<Rightarrow> node \<Rightarrow> error + yielded option"
  and Group_walk_resources :: "nat \<Rightarrow> state \<Rightarrow> node \<Rightarrow> nat \<Rightarrow> error + resource list option"
  and walk_resources_loop :: "nat \<Rightarrow> state \<Rightarrow> node \<Rightarrow> nat list \<Rightarrow> error + resource list option"
  and walk_groups_in_node :: "nat \<Rightarrow> state \<Rightarrow> node \<Rightarrow> nat \<Rightarrow> error + nat list option"
  and walk_groups_in_node_loop :: "nat \<Rightarrow> state \<Rightarrow> node \<Rightarrow> nat list \<Rightarrow> error + nat list option"
where
  "list_resources fuel s self nd =
     (case run_walker (resolve_walker s self nd) fuel s nd of
        Inl e \<Rightarrow> Inl e
      | Inr None \<Rightarrow> Inr None
      | Inr (Some y) \<Rightarrow>
          Inr (Some (match_yielded (name (heap s ! root (heap s ! self)))
                       (name (heap s ! self)) y)))"
| "run_walker (Host_walker rs) fuel s nd = Inr (Some (Yield_resources rs))"
| "run_walker (Attached m) 0 s nd = Inr None"
| "run_walker (Attached m) (Suc n) s nd = call m n s nd"
| "call (Walk_groups_in_node grp) fuel s nd =
     (case walk_groups_in_node fuel s nd grp of
        Inl e \<Rightarrow> Inl e
      | Inr None \<Rightarrow> Inr None
      | Inr (Some gs) \<Rightarrow> Inr (Some (Yield_groups gs)))"
| "call (Walk_resources grp) fuel s nd =
     (case Group_walk_resources fuel s nd grp of
        Inl e \<Rightarrow> Inl e
      | Inr None \<Rightarrow> Inr None
      | Inr (Some rs) \<Rightarrow> Inr (Some (Yield_resources rs)))"
| "Group_walk_resources fuel s nd grp =
     (if shadowed (heap s) grp ''walk_groups'' then Inl TypeError
      else case walk_groups fuel (heap s) grp of
        Inl e \<Rightarrow> Inl e
      | Inr None \<Rightarrow> Inr None
      | Inr (Some walker) \<Rightarrow> walk_resources_loop fuel s nd walker)"
| "walk_resources_loop fuel s nd [] = Inr (Some [])"
| "walk_resources_loop fuel s nd (g # walker) =
     (if shadowed (heap s) g ''list_resources'' then Inl TypeError
      else case list_resources fuel s g nd of
        Inl e \<Rightarrow> Inl e
      | Inr None \<Rightarrow> Inr None
      | Inr (Some rs) \<Rightarrow> (case walk_resources_loop fuel s nd walker of
           Inl e \<Rightarrow> Inl e
         | Inr None \<Rightarrow> Inr None
         | Inr (Some rest) \<Rightarrow> Inr (Some (rs @ rest))))"
| "walk_groups_in_node fuel s nd grp =
     (if shadowed (heap s) grp ''walk_groups'' then Inl TypeError
      else case walk_groups fuel (heap s) grp of
        Inl e \<Rightarrow> Inl e
      | Inr None \<Rightarrow> Inr None
      | Inr (Some walker) \<Rightarrow> walk_groups_in_node_loop fuel s nd walker)"
| "walk_groups_in_node_loop fuel s nd [] = Inr (Some [])"
| "walk_groups_in_node_loop fuel s nd (g # walker) =
     (if shadowed (heap s) g ''list_resources'' then Inl TypeError
      else case list_resources fuel s g nd of
        Inl e \<Rightarrow> Inl e
      | Inr None \<Rightarrow> Inr None
      | Inr (Some lister) \<Rightarrow> (case walk_groups_in_node_loop fuel s nd walker of
           Inl e \<Rightarrow> Inl e
         | Inr None \<Rightarrow> Inr None
         | Inr (Some rest) \<Rightarrow> Inr (Some (fst (first_resource g lister) @ rest))))"
  by pat_completeness auto
termination
  by (relation "measures
     [\<lambda>x. case x of
        Inl (Inl (fuel, _)) \<Rightarrow> fuel
      | Inl (Inr (Inl (_, fuel, _))) \<Rightarrow> fuel
      | Inl (Inr (Inr (_, fuel, _))) \<Rightarrow> fuel
      | Inr (Inl (Inl (fuel, _))) \<Rightarrow> fuel
      | Inr (Inl (Inr (fuel, _))) \<Rightarrow> fuel
      | Inr (Inr (Inl (fuel, _))) \<Rightarrow> fuel
      | Inr (Inr (Inr (fuel, _))) \<Rightarrow> fuel,
      \<lambda>x. case x of
        Inl (Inl _) \<Rightarrow> 1
      | Inl (Inr (Inl _)) \<Rightarrow> 0
      | Inl (Inr (Inr _)) \<Rightarrow> 4
      | Inr (Inl (Inl _)) \<Rightarrow> 3
      | Inr (Inl (Inr _)) \<Rightarrow> 2
      | Inr (Inr (Inl _)) \<Rightarrow> 3
      | Inr (Inr (Inr _)) \<Rightarrow> 2,
      \<lambda>x. case x of
        Inr (Inl (Inr (_, _, _, walker))) \<Rightarrow> length walker
      | Inr (Inr (Inr (_, _, _, walker))) \<Rightarrow> length walker
      | _ \<Rightarrow> 0]") auto

text \<open>
  Calling a method of a node that \<open>add_method\<close> attached: the attribute lookup on the
  class fails with \<open>AttributeError\<close> when nothing is attached under the name.
\<close>

definition node_method_call ::
  "state \<Rightarrow> string \<Rightarrow> nat \<Rightarrow> node \<Rightarrow> error + yielded option" where
  "node_method_call s method_name fuel nd =
     (case node_methods s method_name of
        None \<Rightarrow> Inl AttributeError
      | Some m \<Rightarrow> call m fuel s nd)"

subsection \<open>The plugin: \<open>GrouperPlugin.begin_site\<close>\<close>

text \<open>
  The site has the grouper section of its configuration (absent when the configuration has
  no attribute \<open>grouper\<close>; otherwise the entries of its dictionary in iteration order), the
  registry \<open>site.grouper\<close> (absent until the plugin creates it) and the interpreter
  state.
\<close>

record site =
  config_grouper :: "(string \<times> grouping) list option"
  grouper :: "(string \<rightharpoonup> nat) option"
  runtime :: state

text \<open>
  \<open>grouping.name = name\<close>: an entry \<open>name\<close> of the specification is overwritten where
  it stands, and a new entry is added otherwise.
\<close>

fun has_name :: "item list \<Rightarrow> bool" where
  "has_name [] = False"
| "has_name (Name _ # d) = True"
| "has_name (_ # d) = has_name d"

fun replace_name :: "string \<Rightarrow> item list \<Rightarrow> item list" where
  "replace_name n [] = []"
| "replace_name n (Name _ # d) = Name n # replace_name n d"
| "replace_name n (kv # d) = kv # replace_name n d"

definition set_name :: "string \<Rightarrow> grouping \<Rightarrow> grouping" where
  "set_name n grouping =
     (if has_name (items grouping) then Grouping (replace_name n (items grouping))
      else Grouping (Name n # items grouping))"

text \<open>The loop of \<open>begin_site\<close> over the entries of the grouper configuration.\<close>

fun begin_site_loop :: "(string \<times> grouping) list \<Rightarrow> site \<Rightarrow> site" where
  "begin_site_loop [] site = site"
| "begin_site_loop ((nm, grouping) # rest) site =
     (let grouping = set_name nm grouping;
          site = site\<lparr>config_grouper :=
                   map_option (AList.update nm grouping) (config_grouper site)\<rparr>;
          r = Group_init grouping None (runtime site);
          site = site\<lparr>runtime := snd r,
                   grouper := map_option (\<lambda>reg. reg(nm \<mapsto> fst r)) (grouper site)\<rparr>
      in begin_site_loop rest site)"

text \<open>Lines 149 and 150: the registry is created only when the site has none.\<close>

definition create_registry :: "site \<Rightarrow> site" where
  "create_registry site =
     (case grouper site of
        None \<Rightarrow> site\<lparr>grouper := Some Map.empty\<rparr>
      | Some _ \<Rightarrow> site)"

definition begin_site :: "site \<Rightarrow> site" where
  "begin_site site =
     (case config_grouper site of
        None \<Rightarrow> site
      | Some config \<Rightarrow> begin_site_loop config (create_registry site))"

subsection \<open>The configured tree, for reference\<close>

text \<open>The number of groups that a specification configures, itself included.\<close>

fun count_groups :: "grouping \<Rightarrow> nat"
  and count_item :: "item \<Rightarrow> nat" where
  "count_groups (Grouping d) = Suc (sum_list (map count_item d))"
| "count_item (Groups val) = sum_list (map count_groups val)"
| "count_item _ = 0"

text \<open>
  The name of a configured group: its \<open>name\<close> entry, and \<open>groups\<close> without one
  (\<open>name_after d n\<close> is the name that the entries \<open>d\<close> leave on an object named \<open>n\<close>).
\<close>

fun name_after :: "item list \<Rightarrow> string \<Rightarrow> string" where
  "name_after [] n = n"
| "name_after (Name v # d) n = name_after d v"
| "name_after (_ # d) n = name_after d n"

text \<open>The sorter that the entries \<open>d\<close> leave on an object whose sorter was \<open>x\<close>.\<close>

fun sorter_after :: "item list \<Rightarrow> string option \<Rightarrow> string option" where
  "sorter_after [] x = x"
| "sorter_after (Sorter v # d) x = sorter_after d (Some v)"
| "sorter_after (_ # d) x = sorter_after d x"

definition group_name :: "grouping \<Rightarrow> string" where
  "group_name grouping = name_after (items grouping) ''groups''"

text \<open>
  The names of the configured groups in depth-first pre-order: the group itself, then the
  subtree of each of its sub-groups in configuration order.
\<close>

fun names :: "grouping \<Rightarrow> string list"
  and item_names :: "item \<Rightarrow> string list" where
  "names (Grouping d) = name_after d ''groups'' # concat (map item_names d)"
| "item_names (Groups val) = concat (map names val)"
| "item_names _ = []"

text \<open>
  The capabilities that the construction of a configured tree at address \<open>a\<close> attaches,
  in the order of attachment: those of the sub-groups first, those of the group itself
  last.
\<close>

function (sequential) registrations :: "grouping \<Rightarrow> nat \<Rightarrow> (string \<times> capability) list"
  and registrations_items :: "item list \<Rightarrow> nat \<Rightarrow> (string \<times> capability) list"
  and registrations_item :: "item \<Rightarrow> nat \<Rightarrow> (string \<times> capability) list"
  and registrations_list :: "grouping list \<Rightarrow> nat \<Rightarrow> (string \<times> capability) list"
where
  "registrations (Grouping d) a =
     registrations_items d (Suc a) @
     [(''walk_'' @ name_after d ''groups'' @ ''_groups'', Walk_groups_in_node a),
      (''walk_resources_grouped_by_'' @ name_after d ''groups'', Walk_resources a)]"
| "registrations_items [] a = []"
| "registrations_items (kv # d) a =
     registrations_item kv a @ registrations_items d (a + count_item kv)"
| "registrations_item (Groups val) a = registrations_list val a"
| "registrations_item _ a = []"
| "registrations_list [] a = []"
| "registrations_list (g # val) a = registrations g a @ registrations_list val (a + count_groups g)"
  by pat_completeness auto
termination
  by (relation "measure (\<lambda>x. case x of
        Inl (Inl (g, _)) \<Rightarrow> 2 * size g
      | Inl (Inr (d, _)) \<Rightarrow> 2 * size_list size d + 1
      | Inr (Inl (kv, _)) \<Rightarrow> 2 * size kv
      | Inr (Inr (val, _)) \<Rightarrow> 2 * size_list size val + 1)") auto

text \<open>Following the \<open>parent\<close> links from a group to the top of its tree.\<close>

fun top :: "nat \<Rightarrow> group list \<Rightarrow> nat \<Rightarrow> nat option" where
  "top 0 h g = None"
| "top (Suc n) h g = (case parent (h ! g) of None \<Rightarrow> Some g | Some p \<Rightarrow> top n h p)"

text \<open>The group that a capability is bound to, and the method name it is attached under.\<close>

fun bound_group :: "capability \<Rightarrow> nat" where
  "bound_group (Walk_groups_in_node g) = g"
| "bound_group (Walk_resources g) = g"

fun method_name :: "capability \<Rightarrow> string \<Rightarrow> string" where
  "method_name (Walk_groups_in_node _) n = ''walk_'' @ n @ ''_groups''"
| "method_name (Walk_resources _) n = ''walk_resources_grouped_by_'' @ n"

text \<open>No entry of the configured tree is named after a method that is called through a
  group object.\<close>

fun method_free :: "grouping \<Rightarrow> bool"
  and method_free_item :: "item \<Rightarrow> bool" where
  "method_free (Grouping d) = (\<forall>kv \<in> set d. method_free_item kv)"
| "method_free_item (Groups val) = (\<forall>g \<in> set val. method_free g)"
| "method_free_item (Other k v) = (k \<noteq> ''walk_groups'' \<and> k \<noteq> ''list_resources'')"
| "method_free_item _ = True"

text \<open>What a run has yielded when it has ended without an error, and nothing otherwise.\<close>

fun yields :: "error + 'a list option \<Rightarrow> 'a list" where
  "yields (Inr (Some xs)) = xs"
| "yields _ = []"

text \<open>The entries of a specification other than its name.\<close>

fun unnamed :: "item list \<Rightarrow> item list" where
  "unnamed [] = []"
| "unnamed (Name _ # d) = unnamed d"
| "unnamed (kv # d) = kv # unnamed d"

subsection \<open>Example configurations\<close>

definition empty_state :: state where
  "empty_state = \<lparr>heap = [], node_methods = Map.empty\<rparr>"

text \<open>The grouping \<open>topics: {groups: [{name: a}, {name: b}]}\<close>, before and after it is named.\<close>

definition topics_grouping :: grouping where
  "topics_grouping = Grouping [Groups [Grouping [Name ''a''], Grouping [Name ''b'']]]"

definition topics_tree :: grouping where
  "topics_tree = Grouping [Name ''topics'', Groups [Grouping [Name ''a''], Grouping [Name ''b'']]]"

definition topics_site :: site where
  "topics_site = \<lparr>config_grouper = Some [(''topics'', topics_grouping)], grouper = None,
     runtime = empty_state\<rparr>"

definition resource_a :: resource where
  "resource_a = \<lparr>path = ''one.html'', meta = Some [(''topics'', MStr ''a'')]\<rparr>"

definition resource_b :: resource where
  "resource_b = \<lparr>path = ''two.html'', meta = Some [(''topics'', MStr ''b'')]\<rparr>"

definition topics_node :: node where
  "topics_node = \<lparr>walk_resources = [resource_a, resource_b], node_attrs = []\<rparr>"

text \<open>
  A grouping with sorter \<open>s1\<close>, a sub-group \<open>a\<close> with sorter \<open>s2\<close> and a sub-group
  \<open>b\<close> of \<open>a\<close> without a sorter. The entries of \<open>a\<close> stand in the order in which
  CPython 2.7 iterates a dictionary with the keys \<open>name\<close>, \<open>sorter\<close> and \<open>groups\<close>:
  \<open>name\<close>, \<open>groups\<close>, \<open>sorter\<close>.
\<close>

definition nested_sorter_grouping :: grouping where
  "nested_sorter_grouping =
     Grouping [Name ''topics'', Sorter ''s1'',
       Groups [Grouping [Name ''a'', Groups [Grouping [Name ''b'']], Sorter ''s2'']]]"

text \<open>
  A state with a root \<open>topics\<close>, a group \<open>a\<close> whose sorter is \<open>kind\<close> and a
  group \<open>b\<close> without a sorter; a resource without the field \<open>topics\<close> and one
  without \<open>meta\<close>; and a node with the sorted walk (\<open>topics_node\<close> has none).
\<close>

definition kind_state :: state where
  "kind_state =
     \<lparr>heap = [\<lparr>name = ''topics'', parent = None, root = 0, groups = [1, 2],
                sorter = None, extra = []\<rparr>,
               \<lparr>name = ''a'', parent = Some 0, root = 0, groups = [],
                sorter = Some ''kind'', extra = []\<rparr>,
               \<lparr>name = ''b'', parent = Some 0, root = 0, groups = [],
                sorter = None, extra = []\<rparr>],
      node_methods = Map.empty\<rparr>"

definition resource_c :: resource where
  "resource_c = \<lparr>path = ''three.html'', meta = Some [(''kind'', MStr ''a'')]\<rparr>"

definition resource_d :: resource where
  "resource_d = \<lparr>path = ''four.html'', meta = None\<rparr>"

definition sorted_node :: node where
  "sorted_node = \<lparr>walk_resources = [resource_a, resource_c, resource_d, resource_b],
     node_attrs = [(''walk_resources_sorted_by_kind'',
                    [resource_b, resource_d, resource_c, resource_a])]\<rparr>"

text \<open>
  A grouping with an entry that is named after a method, and two groupings of which the
  first gets a capability under the name of the sorted walk of the second:
  \<open>'walk_%s_groups' % 'resources_sorted_by_kind'\<close> is
  \<open>'walk_resources_sorted_by_' + 'kind_groups'\<close>.
\<close>

definition shadowing_grouping :: grouping where
  "shadowing_grouping = Grouping [Name ''topics'', Other ''list_resources'' ''all'',
     Groups [Grouping [Name ''a'', Other ''walk_groups'' ''none'']]]"

definition colliding_state :: state where
  "colliding_state =
     snd (Group_init (Grouping [Name ''b'', Sorter ''kind_groups'']) None
       (snd (Group_init (Grouping [Name ''resources_sorted_by_kind'']) None empty_state)))"

section \<open>Properties\<close>

subsection \<open>Construction: the store\<close>

text \<open>
  The equations of the construction in terms of \<open>fst\<close> and \<open>snd\<close>, which replace
  the ones with \<open>case\<close> in the simplifier.
\<close>

lemma heap_add_method [simp]: "heap (add_method k m s) = heap s"
  by (simp add: add_method_def)

lemma heap_attach_capabilities [simp]: "heap (attach_capabilities self s) = heap s"
  by (simp add: attach_capabilities_def Let_def)

lemma heap_setattr [simp]: "heap (setattr self f s) = (heap s)[self := f (heap s ! self)]"
  by (simp add: setattr_def)

lemma length_new_group [simp]: "length (heap (new_group d par s)) = Suc (length (heap s))"
  by (simp add: new_group_def Let_def)

lemma nth_new_group [simp]:
  "i < length (heap s) \<Longrightarrow> heap (new_group d par s) ! i = heap s ! i"
  by (simp add: new_group_def Let_def nth_append)

lemma fst_Group_init [simp]: "fst (Group_init g par s) = length (heap s)"
  by (cases g) simp

lemma snd_Group_init:
  "snd (Group_init (Grouping d) par s) =
     attach_capabilities (length (heap s))
       (Expando_update d (length (heap s)) (new_group d par s))"
  by simp

lemma set_expando_Groups:
  "set_expando (Groups val) self s =
     setattr self (\<lambda>g. g\<lparr>groups := fst (make_groups val self s)\<rparr>)
       (snd (make_groups val self s))"
  by (simp split: prod.splits)

lemma fst_make_groups_Cons:
  "fst (make_groups (grp # val) self s) =
     length (heap s) # fst (make_groups val self (snd (Group_init grp (Some self) s)))"
proof (cases "Group_init grp (Some self) s")
  case (Pair g s')
  moreover from Pair have "g = length (heap s)"
    using fst_Group_init[of grp "Some self" s] by simp
  ultimately show ?thesis by (simp split: prod.splits)
qed

lemma snd_make_groups_Cons:
  "snd (make_groups (grp # val) self s) =
     snd (make_groups val self (snd (Group_init grp (Some self) s)))"
  by (simp split: prod.splits)

declare Group_init.simps [simp del] set_expando.simps(1) [simp del]
  make_groups.simps(2) [simp del]

declare snd_Group_init [simp] set_expando_Groups [simp] fst_make_groups_Cons [simp]
  snd_make_groups_Cons [simp]

text \<open>
  The construction of a configured tree appends one object per configured group, the
  constructed group first, and returns its address.
\<close>

lemma length_heap:
  "length (heap (snd (Group_init g par s))) = length (heap s) + count_groups g"
  "length (heap (Expando_update d self s)) = length (heap s) + sum_list (map count_item d)"
  "length (heap (set_expando kv self s)) = length (heap s) + count_item kv"
  "length (heap (snd (make_groups val self s))) = length (heap s) + sum_list (map count_groups val)"
proof (induction g par s and d self s and kv self s and val self s
    rule: Group_init_Expando_update_set_expando_make_groups.induct)
  case (9 grp val self s)
  from 9(1) 9(2)[OF prod.collapse] show ?case
    by simp
qed simp_all

text \<open>
  Frame: a construction leaves every earlier object as it is; the copy of the entries
  changes, of the earlier objects, only the one it copies onto.
\<close>

lemma frame:
  "i < length (heap s) \<Longrightarrow> heap (snd (Group_init g par s)) ! i = heap s ! i"
  "i < length (heap s) \<Longrightarrow> i \<noteq> self \<Longrightarrow> heap (Expando_update d self s) ! i = heap s ! i"
  "i < length (heap s) \<Longrightarrow> i \<noteq> self \<Longrightarrow> heap (set_expando kv self s) ! i = heap s ! i"
  "i < length (heap s) \<Longrightarrow> heap (snd (make_groups val self s)) ! i = heap s ! i"
proof (induction g par s and d self s and kv self s and val self s
    rule: Group_init_Expando_update_set_expando_make_groups.induct)
  case (3 kv d self s)
  then show ?case by (simp add: length_heap)
next
  case (9 grp val self s)
  from 9(1) 9(2)[OF prod.collapse] 9(3) show ?case
    by (simp add: length_heap)
qed simp_all

lemma set_expando_self:
  assumes "self < length (heap s)"
  shows "parent (heap (set_expando kv self s) ! self) = parent (heap s ! self)"
    and "root (heap (set_expando kv self s) ! self) = root (heap s ! self)"
  using assms
  by (cases kv; simp add: length_heap frame)+

lemma Expando_update_self:
  "self < length (heap s) \<Longrightarrow>
     parent (heap (Expando_update d self s) ! self) = parent (heap s ! self)
     \<and> root (heap (Expando_update d self s) ! self) = root (heap s ! self)"
  by (induction d arbitrary: s) (simp_all add: set_expando_self length_heap)

lemma root_new_group [simp]:
  "root (heap (new_group d par s) ! length (heap s)) =
     (case par of None \<Rightarrow> length (heap s) | Some q \<Rightarrow> root (heap s ! q))"
  by (simp add: new_group_def Let_def split: option.splits)

lemma parent_new_group [simp]:
  "parent (heap (new_group d par s) ! length (heap s)) = par"
  by (simp add: new_group_def Let_def split: option.splits)

lemma groups_new_group [simp]:
  "groups (heap (new_group d par s) ! length (heap s)) = []"
  by (simp add: new_group_def Let_def split: option.splits)

lemma name_new_group [simp]:
  "name (heap (new_group d par s) ! length (heap s)) = ''groups''"
  by (simp add: new_group_def Let_def split: option.splits)

text \<open>Every new object gets the root of the construction.\<close>

lemma roots:
  "(\<And>q. par = Some q \<Longrightarrow> q < length (heap s)) \<Longrightarrow> length (heap s) \<le> i \<Longrightarrow>
     i < length (heap (snd (Group_init g par s))) \<Longrightarrow>
     root (heap (snd (Group_init g par s)) ! i) =
       (case par of None \<Rightarrow> length (heap s) | Some q \<Rightarrow> root (heap s ! q))"
  "self < length (heap s) \<Longrightarrow> length (heap s) \<le> i \<Longrightarrow>
     i < length (heap (Expando_update d self s)) \<Longrightarrow>
     root (heap (Expando_update d self s) ! i) = root (heap s ! self)"
  "self < length (heap s) \<Longrightarrow> length (heap s) \<le> i \<Longrightarrow>
     i < length (heap (set_expando kv self s)) \<Longrightarrow>
     root (heap (set_expando kv self s) ! i) = root (heap s ! self)"
  "self < length (heap s) \<Longrightarrow> length (heap s) \<le> i \<Longrightarrow>
     i < length (heap (snd (make_groups val self s))) \<Longrightarrow>
     root (heap (snd (make_groups val self s)) ! i) = root (heap s ! self)"
proof (induction g par s and d self s and kv self s and val self s
    rule: Group_init_Expando_update_set_expando_make_groups.induct)
  case (1 d par s)
  show ?case
  proof (cases "i = length (heap s)")
    case True
    then show ?thesis by (simp add: Expando_update_self)
  next
    case False
    with 1 show ?thesis by simp
  qed
next
  case (2 self s)
  then show ?case by simp
next
  case (3 kv d self s)
  let ?s1 = "set_expando kv self s"
  show ?case
  proof (cases "i < length (heap ?s1)")
    case True
    with 3 have "heap (Expando_update d self ?s1) ! i = heap ?s1 ! i"
      by (simp add: frame)
    with 3 True show ?thesis by simp
  next
    case False
    with 3 show ?thesis by (simp add: length_heap set_expando_self)
  qed
next
  case (4 val self s)
  then show ?case by simp
next
  case (9 grp val self s)
  let ?s1 = "snd (Group_init grp (Some self) s)"
  show ?case
  proof (cases "i < length (heap ?s1)")
    case True
    with 9 have "heap (snd (make_groups val self ?s1)) ! i = heap ?s1 ! i"
      by (simp add: frame)
    with 9(1) 9(3-) True show ?thesis by simp
  next
    case False
    with 9(2)[OF prod.collapse] 9(3-) show ?thesis by (simp add: length_heap frame)
  qed
qed simp_all

lemma count_groups_pos [simp]: "0 < count_groups g"
  by (cases g) simp

lemma parent_Group_init [simp]:
  "parent (heap (snd (Group_init g par s)) ! length (heap s)) = par"
  by (cases g) (simp add: Expando_update_self)

text \<open>
  Every entry of a \<open>groups\<close> list is a later object whose parent is the owner of the
  list.
\<close>

lemma children:
  "(length (heap s) \<le> i \<and> i < length (heap (snd (Group_init g par s)))
      \<and> c \<in> set (groups (heap (snd (Group_init g par s)) ! i))
     \<longrightarrow> i < c \<and> c < length (heap (snd (Group_init g par s)))
        \<and> parent (heap (snd (Group_init g par s)) ! c) = Some i)"
  "self < length (heap s) \<Longrightarrow>
    (length (heap s) \<le> i \<and> i < length (heap (Expando_update d self s))
      \<and> c \<in> set (groups (heap (Expando_update d self s) ! i))
     \<longrightarrow> i < c \<and> c < length (heap (Expando_update d self s))
        \<and> parent (heap (Expando_update d self s) ! c) = Some i)
    \<and> (c \<in> set (groups (heap (Expando_update d self s) ! self))
     \<longrightarrow> c \<in> set (groups (heap s ! self))
        \<or> length (heap s) \<le> c \<and> c < length (heap (Expando_update d self s))
          \<and> parent (heap (Expando_update d self s) ! c) = Some self)"
  "self < length (heap s) \<Longrightarrow>
    (length (heap s) \<le> i \<and> i < length (heap (set_expando kv self s))
      \<and> c \<in> set (groups (heap (set_expando kv self s) ! i))
     \<longrightarrow> i < c \<and> c < length (heap (set_expando kv self s))
        \<and> parent (heap (set_expando kv self s) ! c) = Some i)
    \<and> (c \<in> set (groups (heap (set_expando kv self s) ! self))
     \<longrightarrow> c \<in> set (groups (heap s ! self))
        \<or> length (heap s) \<le> c \<and> c < length (heap (set_expando kv self s))
          \<and> parent (heap (set_expando kv self s) ! c) = Some self)"
  "self < length (heap s) \<Longrightarrow>
    (length (heap s) \<le> i \<and> i < length (heap (snd (make_groups val self s)))
      \<and> c \<in> set (groups (heap (snd (make_groups val self s)) ! i))
     \<longrightarrow> i < c \<and> c < length (heap (snd (make_groups val self s)))
        \<and> parent (heap (snd (make_groups val self s)) ! c) = Some i)
    \<and> (c \<in> set (fst (make_groups val self s))
     \<longrightarrow> length (heap s) \<le> c \<and> c < length (heap (snd (make_groups val self s)))
          \<and> parent (heap (snd (make_groups val self s)) ! c) = Some self)"
proof (induction g par s and d self s and kv self s and val self s
    rule: Group_init_Expando_update_set_expando_make_groups.induct)
  case (1 d par s)
  let ?l = "length (heap s)"
  have "?l < length (heap (new_group d par s))" by simp
  from 1[OF this] show ?case
    by (cases "i = ?l") auto
next
  case (2 self s)
  then show ?case by auto
next
  case (3 kv d self s)
  let ?s1 = "set_expando kv self s"
  let ?s2 = "Expando_update d self ?s1"
  have l1: "length (heap s) \<le> length (heap ?s1)" and l2: "length (heap ?s1) \<le> length (heap ?s2)"
    by (simp_all add: length_heap)
  have self1: "self < length (heap ?s1)" using 3(3) l1 by simp
  have fr: "\<And>j. j < length (heap ?s1) \<Longrightarrow> j \<noteq> self \<Longrightarrow> heap ?s2 ! j = heap ?s1 ! j"
    by (simp add: frame)
  note ih1 = 3(1)[OF 3(3)] and ih2 = 3(2)[OF self1]
  have a: "length (heap s) \<le> i \<and> i < length (heap ?s2) \<and> c \<in> set (groups (heap ?s2 ! i))
     \<longrightarrow> i < c \<and> c < length (heap ?s2) \<and> parent (heap ?s2 ! c) = Some i"
  proof (cases "i < length (heap ?s1)")
    case True
    show ?thesis
    proof (intro impI, elim conjE)
      assume *: "length (heap s) \<le> i" "c \<in> set (groups (heap ?s2 ! i))"
      with True 3(3) have "heap ?s2 ! i = heap ?s1 ! i" by (intro fr) auto
      with * True ih1 have **: "i < c" "c < length (heap ?s1)" "parent (heap ?s1 ! c) = Some i"
        by auto
      with * 3(3) have "heap ?s2 ! c = heap ?s1 ! c" by (intro fr) auto
      with ** l2 show "i < c \<and> c < length (heap ?s2) \<and> parent (heap ?s2 ! c) = Some i"
        by simp
    qed
  next
    case False
    with ih2 show ?thesis by auto
  qed
  have b: "c \<in> set (groups (heap ?s2 ! self))
     \<longrightarrow> c \<in> set (groups (heap s ! self))
        \<or> length (heap s) \<le> c \<and> c < length (heap ?s2) \<and> parent (heap ?s2 ! c) = Some self"
  proof
    assume "c \<in> set (groups (heap ?s2 ! self))"
    with ih2 consider "c \<in> set (groups (heap ?s1 ! self))"
      | "length (heap ?s1) \<le> c" "c < length (heap ?s2)" "parent (heap ?s2 ! c) = Some self"
      by auto
    then show "c \<in> set (groups (heap s ! self))
        \<or> length (heap s) \<le> c \<and> c < length (heap ?s2) \<and> parent (heap ?s2 ! c) = Some self"
    proof cases
      case 1
      with ih1 consider "c \<in> set (groups (heap s ! self))"
        | "length (heap s) \<le> c" "c < length (heap ?s1)" "parent (heap ?s1 ! c) = Some self"
        by auto
      then show ?thesis
      proof cases
        case 1
        then show ?thesis by simp
      next
        case 2
        with 3(3) have "heap ?s2 ! c = heap ?s1 ! c" by (intro fr) auto
        with 2 l2 show ?thesis by simp
      qed
    next
      case 2
      with l1 show ?thesis by simp
    qed
  qed
  from a b show ?case by simp
next
  case (4 val self s)
  let ?s1 = "snd (make_groups val self s)"
  have l1: "length (heap s) \<le> length (heap ?s1)" by (simp add: length_heap)
  with 4(2) have self1: "self < length (heap ?s1)" by simp
  from 4(1)[OF 4(2)] self1 4(2) show ?case
    by (auto simp: nth_list_update)
next
  case (9 grp val self s)
  let ?s1 = "snd (Group_init grp (Some self) s)"
  let ?s2 = "snd (make_groups val self ?s1)"
  have l1: "length (heap s) < length (heap ?s1)" and l2: "length (heap ?s1) \<le> length (heap ?s2)"
    by (simp_all add: length_heap)
  have self1: "self < length (heap ?s1)" using 9(3) l1 by simp
  have fr: "\<And>j. j < length (heap ?s1) \<Longrightarrow> heap ?s2 ! j = heap ?s1 ! j"
    by (simp add: frame)
  note ih1 = 9(1) and ih2 = 9(2)[OF prod.collapse self1]
  have a: "length (heap s) \<le> i \<and> i < length (heap ?s2) \<and> c \<in> set (groups (heap ?s2 ! i))
     \<longrightarrow> i < c \<and> c < length (heap ?s2) \<and> parent (heap ?s2 ! c) = Some i"
  proof (cases "i < length (heap ?s1)")
    case True
    show ?thesis
    proof (intro impI, elim conjE)
      assume *: "length (heap s) \<le> i" "c \<in> set (groups (heap ?s2 ! i))"
      from True have "heap ?s2 ! i = heap ?s1 ! i" by (rule fr)
      with * True ih1 have **: "i < c" "c < length (heap ?s1)" "parent (heap ?s1 ! c) = Some i"
        by auto
      then have "heap ?s2 ! c = heap ?s1 ! c" by (intro fr)
      with ** l2 show "i < c \<and> c < length (heap ?s2) \<and> parent (heap ?s2 ! c) = Some i"
        by simp
    qed
  next
    case False
    with ih2 show ?thesis by auto
  qed
  have b: "c \<in> set (fst (make_groups (grp # val) self s))
     \<longrightarrow> length (heap s) \<le> c \<and> c < length (heap ?s2) \<and> parent (heap ?s2 ! c) = Some self"
  proof
    assume "c \<in> set (fst (make_groups (grp # val) self s))"
    then consider "c = length (heap s)" | "c \<in> set (fst (make_groups val self ?s1))"
      by auto
    then show "length (heap s) \<le> c \<and> c < length (heap ?s2) \<and> parent (heap ?s2 ! c) = Some self"
    proof cases
      case 1
      with l1 have "heap ?s2 ! c = heap ?s1 ! c" by (intro fr) simp
      with 1 l1 l2 show ?thesis by simp
    next
      case 2
      with ih2 l1 show ?thesis by auto
    qed
  qed
  from a b show ?case by simp
qed (auto simp: nth_list_update)

text \<open>Every new object but the constructed one has an earlier new object as parent.\<close>

lemma parents:
  "length (heap s) < i \<Longrightarrow> i < length (heap (snd (Group_init g par s))) \<Longrightarrow>
     \<exists>p. parent (heap (snd (Group_init g par s)) ! i) = Some p \<and> length (heap s) \<le> p \<and> p < i"
  "self < length (heap s) \<Longrightarrow> length (heap s) \<le> i \<Longrightarrow>
     i < length (heap (Expando_update d self s)) \<Longrightarrow>
     \<exists>p. parent (heap (Expando_update d self s) ! i) = Some p
       \<and> (p = self \<or> length (heap s) \<le> p \<and> p < i)"
  "self < length (heap s) \<Longrightarrow> length (heap s) \<le> i \<Longrightarrow>
     i < length (heap (set_expando kv self s)) \<Longrightarrow>
     \<exists>p. parent (heap (set_expando kv self s) ! i) = Some p
       \<and> (p = self \<or> length (heap s) \<le> p \<and> p < i)"
  "self < length (heap s) \<Longrightarrow> length (heap s) \<le> i \<Longrightarrow>
     i < length (heap (snd (make_groups val self s))) \<Longrightarrow>
     \<exists>p. parent (heap (snd (make_groups val self s)) ! i) = Some p
       \<and> (p = self \<or> length (heap s) \<le> p \<and> p < i)"
proof (induction g par s and d self s and kv self s and val self s
    rule: Group_init_Expando_update_set_expando_make_groups.induct)
  case (1 d par s)
  from 1(1)[of] 1(2-) show ?case by auto
next
  case (3 kv d self s)
  let ?s1 = "set_expando kv self s"
  have l1: "length (heap s) \<le> length (heap ?s1)" by (simp add: length_heap)
  show ?case
  proof (cases "i < length (heap ?s1)")
    case True
    with 3 have "heap (Expando_update d self ?s1) ! i = heap ?s1 ! i"
      by (simp add: frame)
    with 3 True show ?thesis by simp
  next
    case False
    with 3(2)[of] 3(3-) l1 show ?thesis by fastforce
  qed
next
  case (4 val self s)
  then show ?case by simp
next
  case (9 grp val self s)
  let ?s1 = "snd (Group_init grp (Some self) s)"
  have l1: "length (heap s) < length (heap ?s1)" by (simp add: length_heap)
  show ?case
  proof (cases "i < length (heap ?s1)")
    case True
    then have eq: "heap (snd (make_groups val self ?s1)) ! i = heap ?s1 ! i"
      by (simp add: frame)
    show ?thesis
    proof (cases "i = length (heap s)")
      case True
      with eq show ?thesis by simp
    next
      case False
      with 9(1) 9(4) True eq show ?thesis by auto
    qed
  next
    case False
    with 9(2)[OF prod.collapse] 9(3-) l1 show ?thesis by fastforce
  qed
qed simp_all

text \<open>
  The dynamic attributes of the new objects are the descriptive entries of their
  specifications: none hides a method when no entry is named after one.
\<close>

lemma map_of_update_other: "k \<noteq> k' \<Longrightarrow> map_of (AList.update k' v al) k = map_of al k"
  by (simp add: update_conv')

lemma extras:
  "method_free g \<Longrightarrow> length (heap s) \<le> i \<Longrightarrow> i < length (heap (snd (Group_init g par s))) \<Longrightarrow>
     k = ''walk_groups'' \<or> k = ''list_resources'' \<Longrightarrow>
     map_of (extra (heap (snd (Group_init g par s)) ! i)) k = None"
  "self < length (heap s) \<Longrightarrow> (\<forall>kv \<in> set d. method_free_item kv) \<Longrightarrow>
     k = ''walk_groups'' \<or> k = ''list_resources'' \<Longrightarrow>
     (length (heap s) \<le> i \<and> i < length (heap (Expando_update d self s)) \<longrightarrow>
        map_of (extra (heap (Expando_update d self s) ! i)) k = None)
     \<and> map_of (extra (heap (Expando_update d self s) ! self)) k
         = map_of (extra (heap s ! self)) k"
  "self < length (heap s) \<Longrightarrow> method_free_item kv \<Longrightarrow>
     k = ''walk_groups'' \<or> k = ''list_resources'' \<Longrightarrow>
     (length (heap s) \<le> i \<and> i < length (heap (set_expando kv self s)) \<longrightarrow>
        map_of (extra (heap (set_expando kv self s) ! i)) k = None)
     \<and> map_of (extra (heap (set_expando kv self s) ! self)) k
         = map_of (extra (heap s ! self)) k"
  "self < length (heap s) \<Longrightarrow> (\<forall>g \<in> set val. method_free g) \<Longrightarrow>
     length (heap s) \<le> i \<Longrightarrow> i < length (heap (snd (make_groups val self s))) \<Longrightarrow>
     k = ''walk_groups'' \<or> k = ''list_resources'' \<Longrightarrow>
     map_of (extra (heap (snd (make_groups val self s)) ! i)) k = None"
proof (induction g par s and d self s and kv self s and val self s
    rule: Group_init_Expando_update_set_expando_make_groups.induct)
  case (1 d par s)
  let ?l = "length (heap s)"
  let ?s0 = "new_group d par s"
  have l0: "?l < length (heap ?s0)" by simp
  from 1(2) have mf: "\<forall>kv \<in> set d. method_free_item kv" by simp
  note ih = 1(1)[OF l0 mf 1(5)]
  have e0: "extra (heap ?s0 ! ?l) = []"
    by (simp add: new_group_def Let_def split: option.splits)
  show ?case
  proof (cases "i = ?l")
    case True
    with ih e0 show ?thesis by simp
  next
    case False
    with 1(3,4) ih show ?thesis by simp
  qed
next
  case (2 self s)
  then show ?case by auto
next
  case (3 kv d self s)
  let ?s1 = "set_expando kv self s"
  let ?s2 = "Expando_update d self ?s1"
  have l1: "length (heap s) \<le> length (heap ?s1)" by (simp add: length_heap)
  with 3(3) have self1: "self < length (heap ?s1)" by simp
  from 3(4) have mf1: "method_free_item kv" and mf2: "\<forall>kv \<in> set d. method_free_item kv"
    by simp_all
  note ih1 = 3(1)[OF 3(3) mf1 3(5)] and ih2 = 3(2)[OF self1 mf2 3(5)]
  have "length (heap s) \<le> i \<and> i < length (heap ?s2) \<longrightarrow> map_of (extra (heap ?s2 ! i)) k = None"
  proof (cases "i < length (heap ?s1)")
    case True
    show ?thesis
    proof (intro impI, elim conjE)
      assume *: "length (heap s) \<le> i"
      with True 3(3) have "heap ?s2 ! i = heap ?s1 ! i" by (simp add: frame)
      with * True ih1 show "map_of (extra (heap ?s2 ! i)) k = None" by simp
    qed
  next
    case False
    with ih2 show ?thesis by simp
  qed
  with ih1 ih2 show ?case by simp
next
  case (4 val self s)
  let ?s1 = "snd (make_groups val self s)"
  have l1: "length (heap s) \<le> length (heap ?s1)" by (simp add: length_heap)
  with 4(2) have self1: "self < length (heap ?s1)" by simp
  from 4(3) have mf: "\<forall>g \<in> set val. method_free g" by simp
  have "heap ?s1 ! self = heap s ! self" using 4(2) by (simp add: frame)
  with 4(1)[OF 4(2) mf _ _ 4(4)] self1 4(2) show ?case
    by (auto simp: nth_list_update)
next
  case (7 k' v self s)
  then show ?case by (auto simp: nth_list_update map_of_update_other)
next
  case (9 grp val self s)
  let ?s1 = "snd (Group_init grp (Some self) s)"
  let ?s2 = "snd (make_groups val self ?s1)"
  have l1: "length (heap s) \<le> length (heap ?s1)" by (simp add: length_heap)
  with 9(3) have self1: "self < length (heap ?s1)" by simp
  from 9(4) have mf1: "method_free grp" and mf2: "\<forall>g \<in> set val. method_free g" by simp_all
  show ?case
  proof (cases "i < length (heap ?s1)")
    case True
    then have "heap ?s2 ! i = heap ?s1 ! i" by (simp add: frame)
    with 9(1)[OF mf1 9(5) True 9(7)] show ?thesis by simp
  next
    case False
    with 9(2)[OF prod.collapse self1 mf2 _ _ 9(7)] 9(6) show ?thesis by simp
  qed
qed (auto simp: nth_list_update)

lemma unshadowed_constructed:
  "method_free g \<Longrightarrow> length (heap s) \<le> i \<Longrightarrow> i < length (heap s) + count_groups g \<Longrightarrow>
     \<not> shadowed (heap (snd (Group_init g par s))) i ''walk_groups''
     \<and> \<not> shadowed (heap (snd (Group_init g par s))) i ''list_resources''"
  using extras(1)[of g s i par] by (simp add: shadowed_def length_heap)

text \<open>
  \<open>walk_groups\<close>: more fuel does not change a result, a result starts with the group,
  and it depends on the visited objects only.
\<close>

lemma walk_mono:
  "walk_groups n h x = Inr (Some xs) \<Longrightarrow> n \<le> m \<Longrightarrow> walk_groups m h x = Inr (Some xs)"
  "walk_groups_list n h gs = Inr (Some xs) \<Longrightarrow> n \<le> m \<Longrightarrow> walk_groups_list m h gs = Inr (Some xs)"
proof (induction n h x and n h gs arbitrary: m xs and m xs
    rule: walk_groups_walk_groups_list.induct)
  case (2 n h self)
  from "2.prems"(2) obtain m' where m: "m = Suc m'" "n \<le> m'" by (cases m) auto
  from "2.prems"(1) obtain ys where a: "walk_groups_list n h (groups (h ! self)) = Inr (Some ys)"
    "xs = self # ys"
    by (auto split: sum.splits option.splits)
  from "2.IH"[OF a(1) m(2)] a(2) m(1) show ?case by simp
next
  case (4 n h g gs)
  from "4.prems"(1) have ns: "\<not> shadowed h g ''walk_groups''" by (auto split: if_splits)
  with "4.prems"(1) obtain ys zs where a: "walk_groups n h g = Inr (Some ys)"
    "walk_groups_list n h gs = Inr (Some zs)" "xs = ys @ zs"
    by (auto split: sum.splits option.splits)
  from "4.IH"(1)[OF ns a(1) "4.prems"(2)] "4.IH"(2)[OF ns a(1) refl a(2) "4.prems"(2)] a(3) ns
  show ?case by simp
qed simp_all

lemma walk_groups_head: "walk_groups n h x = Inr (Some xs) \<Longrightarrow> x \<in> set xs"
  by (cases n) (auto split: sum.splits option.splits)

lemma walk_cong:
  "walk_groups n h x = Inr (Some xs) \<Longrightarrow> (\<And>i. i \<in> set xs \<Longrightarrow> h' ! i = h ! i)
     \<Longrightarrow> walk_groups n h' x = Inr (Some xs)"
  "walk_groups_list n h gs = Inr (Some xs) \<Longrightarrow> (\<And>i. i \<in> set xs \<Longrightarrow> h' ! i = h ! i)
     \<Longrightarrow> walk_groups_list n h' gs = Inr (Some xs)"
proof (induction n h x and n h gs arbitrary: xs and xs
    rule: walk_groups_walk_groups_list.induct)
  case (2 n h self)
  from "2.prems"(1) obtain ys where a: "walk_groups_list n h (groups (h ! self)) = Inr (Some ys)"
    "xs = self # ys"
    by (auto split: sum.splits option.splits)
  from a(2) "2.prems"(2) have "h' ! self = h ! self" by simp
  moreover from "2.IH"[OF a(1)] "2.prems"(2) a(2)
  have "walk_groups_list n h' (groups (h ! self)) = Inr (Some ys)"
    by simp
  ultimately show ?case using a(2) by simp
next
  case (4 n h g gs)
  from "4.prems"(1) have ns: "\<not> shadowed h g ''walk_groups''" by (auto split: if_splits)
  with "4.prems"(1) obtain ys zs where a: "walk_groups n h g = Inr (Some ys)"
    "walk_groups_list n h gs = Inr (Some zs)" "xs = ys @ zs"
    by (auto split: sum.splits option.splits)
  from walk_groups_head[OF a(1)] a(3) "4.prems"(2) have "h' ! g = h ! g" by simp
  with ns have ns': "\<not> shadowed h' g ''walk_groups''" by (simp add: shadowed_def)
  from "4.IH"(1)[OF ns a(1)] "4.prems"(2) a(3) have "walk_groups n h' g = Inr (Some ys)"
    by simp
  moreover from "4.IH"(2)[OF ns a(1) refl a(2)] "4.prems"(2) a(3)
  have "walk_groups_list n h' gs = Inr (Some zs)"
    by simp
  ultimately show ?case using a(3) ns' by simp
qed simp_all

lemma no_groups_count:
  "''groups'' \<notin> key ` set d \<Longrightarrow> sum_list (map count_item d) = 0"
proof (induction d)
  case (Cons kv d)
  then show ?case by (cases kv) auto
qed simp

text \<open>
  From a constructed group, \<open>walk_groups\<close> returns the objects of the construction in
  the order of their creation.
\<close>

lemma walk_constructed:
  "wf_grouping g \<Longrightarrow> method_free g \<Longrightarrow>
     walk_groups (count_groups g) (heap (snd (Group_init g par s))) (length (heap s))
       = Inr (Some [length (heap s) ..< length (heap (snd (Group_init g par s)))])"
  "self < length (heap s) \<Longrightarrow> wf_grouping (Grouping d) \<Longrightarrow> method_free (Grouping d) \<Longrightarrow>
     (if ''groups'' \<in> key ` set d
      then walk_groups_list (sum_list (map count_item d)) (heap (Expando_update d self s))
             (groups (heap (Expando_update d self s) ! self))
           = Inr (Some [length (heap s) ..< length (heap (Expando_update d self s))])
      else groups (heap (Expando_update d self s) ! self) = groups (heap s ! self))"
  "self < length (heap s) \<Longrightarrow> wf_item kv \<Longrightarrow> method_free_item kv \<Longrightarrow>
     (if key kv = ''groups''
      then walk_groups_list (count_item kv) (heap (set_expando kv self s))
             (groups (heap (set_expando kv self s) ! self))
           = Inr (Some [length (heap s) ..< length (heap (set_expando kv self s))])
      else groups (heap (set_expando kv self s) ! self) = groups (heap s ! self))"
  "self < length (heap s) \<Longrightarrow> (\<forall>g \<in> set val. wf_grouping g) \<Longrightarrow>
     (\<forall>g \<in> set val. method_free g) \<Longrightarrow>
     walk_groups_list (sum_list (map count_groups val)) (heap (snd (make_groups val self s)))
       (fst (make_groups val self s))
     = Inr (Some [length (heap s) ..< length (heap (snd (make_groups val self s)))])"
proof (induction g par s and d self s and kv self s and val self s
    rule: Group_init_Expando_update_set_expando_make_groups.induct)
  case (1 d par s)
  let ?l = "length (heap s)"
  let ?s0 = "new_group d par s"
  let ?s1 = "Expando_update d ?l ?s0"
  have "?l < length (heap ?s0)" by simp
  note ih = "1.IH"[OF this "1.prems"]
  show ?case
  proof (cases "''groups'' \<in> key ` set d")
    case True
    with ih have "walk_groups_list (sum_list (map count_item d)) (heap ?s1)
             (groups (heap ?s1 ! ?l)) = Inr (Some [Suc ?l ..< length (heap ?s1)])" by simp
    moreover have "?l < length (heap ?s1)" by (simp add: length_heap)
    ultimately show ?thesis by (simp add: upt_conv_Cons)
  next
    case False
    with ih have "groups (heap ?s1 ! ?l) = []" by simp
    moreover from False have "length (heap ?s1) = Suc ?l"
      by (simp add: length_heap no_groups_count)
    ultimately show ?thesis by simp
  qed
next
  case (2 self s)
  then show ?case by simp
next
  case (3 kv d self s)
  let ?s1 = "set_expando kv self s"
  let ?s2 = "Expando_update d self ?s1"
  have l1: "length (heap s) \<le> length (heap ?s1)" by (simp add: length_heap)
  with "3.prems"(1) have self1: "self < length (heap ?s1)" by simp
  from "3.prems"(2) have wfkv: "wf_item kv" and wfd: "wf_grouping (Grouping d)"
    and dist: "key kv \<notin> key ` set d" by auto
  from "3.prems"(3) have mfkv: "method_free_item kv" and mfd: "method_free (Grouping d)"
    by auto
  note ih1 = "3.IH"(1)[OF "3.prems"(1) wfkv mfkv] and ih2 = "3.IH"(2)[OF self1 wfd mfd]
  show ?case
  proof (cases "key kv = ''groups''")
    case True
    with dist have nog: "''groups'' \<notin> key ` set d" by simp
    then have cnt: "sum_list (map count_item d) = 0" by (rule no_groups_count)
    then have len: "length (heap ?s2) = length (heap ?s1)" by (simp add: length_heap)
    from ih1 True have w1: "walk_groups_list (count_item kv) (heap ?s1)
        (groups (heap ?s1 ! self)) = Inr (Some [length (heap s) ..< length (heap ?s1)])"
      by simp
    from ih2 nog have g2: "groups (heap ?s2 ! self) = groups (heap ?s1 ! self)" by simp
    have "walk_groups_list (count_item kv) (heap ?s2)
        (groups (heap ?s1 ! self)) = Inr (Some [length (heap s) ..< length (heap ?s1)])"
    proof (rule walk_cong(2)[OF w1])
      fix i assume "i \<in> set [length (heap s) ..< length (heap ?s1)]"
      with "3.prems"(1) have "i < length (heap ?s1)" "i \<noteq> self" by auto
      then show "heap ?s2 ! i = heap ?s1 ! i" by (simp add: frame)
    qed
    moreover have "sum_list (map count_item (kv # d)) = count_item kv"
      by (simp only: list.map sum_list.Cons cnt add_0_right)
    moreover have "''groups'' \<in> key ` set (kv # d)" using True by simp
    moreover have "Expando_update (kv # d) self s = ?s2" by simp
    ultimately show ?thesis using g2 len by (simp only: if_True)
  next
    case False
    with wfkv have c0: "count_item kv = 0" by (cases kv) auto
    then have len: "length (heap ?s1) = length (heap s)" by (simp add: length_heap)
    from ih1 False have g1: "groups (heap ?s1 ! self) = groups (heap s ! self)" by simp
    from ih2 False c0 len g1 show ?thesis by simp
  qed
next
  case (4 val self s)
  let ?s1 = "snd (make_groups val self s)"
  have l1: "length (heap s) \<le> length (heap ?s1)" by (simp add: length_heap)
  with "4.prems"(1) have self1: "self < length (heap ?s1)" by simp
  from "4.prems"(2) have wf: "\<forall>g \<in> set val. wf_grouping g" by simp
  from "4.prems"(3) have mf: "\<forall>g \<in> set val. method_free g" by simp
  note ih = "4.IH"[OF "4.prems"(1) wf mf]
  have "walk_groups_list (sum_list (map count_groups val))
      ((heap ?s1)[self := (heap ?s1 ! self)\<lparr>groups := fst (make_groups val self s)\<rparr>])
      (fst (make_groups val self s)) = Inr (Some [length (heap s) ..< length (heap ?s1)])"
  proof (rule walk_cong(2)[OF ih])
    fix i assume "i \<in> set [length (heap s) ..< length (heap ?s1)]"
    with "4.prems"(1) have "i \<noteq> self" by auto
    then show "(heap ?s1)[self := (heap ?s1 ! self)\<lparr>groups := fst (make_groups val self s)\<rparr>] ! i
       = heap ?s1 ! i" by simp
  qed
  with self1 show ?case by simp
next
  case (8 self s)
  then show ?case by simp
next
  case (9 grp val self s)
  let ?s1 = "snd (Group_init grp (Some self) s)"
  let ?s2 = "snd (make_groups val self ?s1)"
  let ?N = "count_groups grp + sum_list (map count_groups val)"
  have l1: "length (heap s) < length (heap ?s1)" and l2: "length (heap ?s1) \<le> length (heap ?s2)"
    by (simp_all add: length_heap)
  with "9.prems"(1) have self1: "self < length (heap ?s1)" by simp
  from "9.prems"(2) have wf1: "wf_grouping grp" and wf2: "\<forall>g \<in> set val. wf_grouping g"
    by simp_all
  from "9.prems"(3) have mf1: "method_free grp" and mf2: "\<forall>g \<in> set val. method_free g"
    by simp_all
  note ih1 = "9.IH"(1)[OF wf1 mf1] and ih2 = "9.IH"(2)[OF prod.collapse self1 wf2 mf2]
  have fr: "\<And>i. i < length (heap ?s1) \<Longrightarrow> heap ?s2 ! i = heap ?s1 ! i"
    by (simp add: frame)
  have "walk_groups (count_groups grp) (heap ?s2) (length (heap s))
      = Inr (Some [length (heap s) ..< length (heap ?s1)])"
  proof (rule walk_cong(1)[OF ih1])
    fix i assume "i \<in> set [length (heap s) ..< length (heap ?s1)]"
    then have "i < length (heap ?s1)" by simp
    then show "heap ?s2 ! i = heap ?s1 ! i" by (rule fr)
  qed
  then have a: "walk_groups ?N (heap ?s2) (length (heap s))
      = Inr (Some [length (heap s) ..< length (heap ?s1)])"
    by (rule walk_mono(1)) simp
  from ih2 have b: "walk_groups_list ?N (heap ?s2) (fst (make_groups val self ?s1))
      = Inr (Some [length (heap ?s1) ..< length (heap ?s2)])"
    by (rule walk_mono(2)) simp
  have "\<not> shadowed (heap ?s1) (length (heap s)) ''walk_groups''"
    using unshadowed_constructed[OF mf1, of s "length (heap s)" "Some self"] by simp
  with fr[OF l1] have c: "\<not> shadowed (heap ?s2) (length (heap s)) ''walk_groups''"
    by (simp add: shadowed_def)
  have "[length (heap s) ..< length (heap ?s1)] @ [length (heap ?s1) ..< length (heap ?s2)]
      = [length (heap s) ..< length (heap ?s2)]"
    using l1 l2 by (metis less_imp_le_nat upt_add_eq_append le_Suc_ex)
  with a b c show ?case by simp
qed simp_all

lemma upt_split: "l \<le> m \<Longrightarrow> m \<le> n \<Longrightarrow> [l..<n] = [l..<m] @ [m..<n]"
  by (metis le_Suc_ex upt_add_eq_append)

lemma name_set_expando:
  "self < length (heap s) \<Longrightarrow>
     name (heap (set_expando kv self s) ! self) = name_after [kv] (name (heap s ! self))"
  by (cases kv) (simp_all add: length_heap frame)

text \<open>The names of the new objects are the configured names in pre-order.\<close>

lemma names_constructed:
  "map (\<lambda>i. name (heap (snd (Group_init g par s)) ! i))
      [length (heap s) ..< length (heap (snd (Group_init g par s)))] = names g"
  "self < length (heap s) \<Longrightarrow>
     map (\<lambda>i. name (heap (Expando_update d self s) ! i))
       [length (heap s) ..< length (heap (Expando_update d self s))] = concat (map item_names d)
     \<and> name (heap (Expando_update d self s) ! self) = name_after d (name (heap s ! self))"
  "self < length (heap s) \<Longrightarrow>
     map (\<lambda>i. name (heap (set_expando kv self s) ! i))
       [length (heap s) ..< length (heap (set_expando kv self s))] = item_names kv"
  "self < length (heap s) \<Longrightarrow>
     map (\<lambda>i. name (heap (snd (make_groups val self s)) ! i))
       [length (heap s) ..< length (heap (snd (make_groups val self s)))] = concat (map names val)"
proof (induction g par s and d self s and kv self s and val self s
    rule: Group_init_Expando_update_set_expando_make_groups.induct)
  case (1 d par s)
  let ?l = "length (heap s)"
  let ?s1 = "Expando_update d ?l (new_group d par s)"
  have "?l < length (heap (new_group d par s))" by simp
  note ih = 1[OF this]
  have "?l < length (heap ?s1)" by (simp add: length_heap)
  then have "[?l ..< length (heap ?s1)] = ?l # [Suc ?l ..< length (heap ?s1)]"
    by (rule upt_conv_Cons)
  with ih show ?case by simp
next
  case (2 self s)
  then show ?case by simp
next
  case (3 kv d self s)
  let ?s1 = "set_expando kv self s"
  let ?s2 = "Expando_update d self ?s1"
  have l1: "length (heap s) \<le> length (heap ?s1)" and l2: "length (heap ?s1) \<le> length (heap ?s2)"
    by (simp_all add: length_heap)
  with 3(3) have self1: "self < length (heap ?s1)" by simp
  note ih1 = 3(1)[OF 3(3)] and ih2 = 3(2)[OF self1]
  have "map (\<lambda>i. name (heap ?s2 ! i)) [length (heap s) ..< length (heap ?s1)]
      = map (\<lambda>i. name (heap ?s1 ! i)) [length (heap s) ..< length (heap ?s1)]"
    using 3(3) by (intro map_cong refl) (simp add: frame)
  with ih1 ih2 have "map (\<lambda>i. name (heap ?s2 ! i)) [length (heap s) ..< length (heap ?s2)]
      = item_names kv @ concat (map item_names d)"
    by (simp add: upt_split[OF l1 l2])
  moreover have "name (heap ?s2 ! self) = name_after (kv # d) (name (heap s ! self))"
    using ih2 name_set_expando[OF 3(3), of kv] by (cases kv) simp_all
  ultimately show ?case by simp
next
  case (4 val self s)
  let ?s1 = "snd (make_groups val self s)"
  have "map (\<lambda>i. name ((heap ?s1)[self := (heap ?s1 ! self)\<lparr>groups := fst (make_groups val self s)\<rparr>] ! i))
          [length (heap s) ..< length (heap ?s1)]
      = map (\<lambda>i. name (heap ?s1 ! i)) [length (heap s) ..< length (heap ?s1)]"
    using 4(2) by (intro map_cong refl) simp
  with 4(1)[OF 4(2)] show ?case by simp
next
  case (9 grp val self s)
  let ?s1 = "snd (Group_init grp (Some self) s)"
  let ?s2 = "snd (make_groups val self ?s1)"
  have l1: "length (heap s) \<le> length (heap ?s1)" and l2: "length (heap ?s1) \<le> length (heap ?s2)"
    by (simp_all add: length_heap)
  with 9(3) have self1: "self < length (heap ?s1)" by simp
  note ih1 = 9(1) and ih2 = 9(2)[OF prod.collapse self1]
  have "map (\<lambda>i. name (heap ?s2 ! i)) [length (heap s) ..< length (heap ?s1)]
      = map (\<lambda>i. name (heap ?s1 ! i)) [length (heap s) ..< length (heap ?s1)]"
    by (intro map_cong refl) (simp add: frame)
  with ih1 ih2 show ?case
    by (simp add: upt_split[OF l1 l2])
qed simp_all

lemma node_methods_setattr [simp]: "node_methods (setattr self f s) = node_methods s"
  by (simp add: setattr_def)

lemma node_methods_new_group [simp]: "node_methods (new_group d par s) = node_methods s"
  by (simp add: new_group_def Let_def)

lemma node_methods_attach:
  "node_methods (attach_capabilities self s) =
     (node_methods s)
       (''walk_'' @ name (heap s ! self) @ ''_groups'' \<mapsto> Walk_groups_in_node self,
        ''walk_resources_grouped_by_'' @ name (heap s ! self) \<mapsto> Walk_resources self)"
  by (simp add: attach_capabilities_def add_method_def Let_def groups_method_def
      resources_method_def)

lemma name_Group_init:
  "name (heap (Expando_update d (length (heap s)) (new_group d par s)) ! length (heap s))
     = name_after d ''groups''"
  using names_constructed(2)[of "length (heap s)" "new_group d par s" d] by simp

lemma map_add_two:
  "m ++ map_of (rev (xs @ [(k1, c1), (k2, c2)])) = (m ++ map_of (rev xs))(k1 \<mapsto> c1, k2 \<mapsto> c2)"
  by (simp add: fun_eq_iff map_add_def)

text \<open>The methods of \<open>Node\<close> after a construction.\<close>

lemma methods_constructed:
  "node_methods (snd (Group_init g par s))
     = node_methods s ++ map_of (rev (registrations g (length (heap s))))"
  "node_methods (Expando_update d self s)
     = node_methods s ++ map_of (rev (registrations_items d (length (heap s))))"
  "node_methods (set_expando kv self s)
     = node_methods s ++ map_of (rev (registrations_item kv (length (heap s))))"
  "node_methods (snd (make_groups val self s))
     = node_methods s ++ map_of (rev (registrations_list val (length (heap s))))"
proof (induction g par s and d self s and kv self s and val self s
    rule: Group_init_Expando_update_set_expando_make_groups.induct)
  case (1 d par s)
  then show ?case
    by (simp only: snd_Group_init registrations.simps map_add_two node_methods_attach
        heap_attach_capabilities name_Group_init length_new_group node_methods_new_group)
next
  case (3 kv d self s)
  then show ?case by (simp add: length_heap)
next
  case (9 grp val self s)
  from 9(1) 9(2)[OF prod.collapse] show ?case by (simp add: length_heap)
qed simp_all

subsection \<open>Resources of a group\<close>

lemma list_resources_loop_filter:
  "list_resources_loop field nm rs
     = filter (\<lambda>r. case meta r of None \<Rightarrow> False | Some m \<Rightarrow> map_of m field = Some (MStr nm)) rs"
  by (induction rs) (auto simp: getattr_meta_def split: option.splits)

lemma list_resources_host:
  "resolve_walker s g nd = Host_walker rs \<Longrightarrow>
     list_resources fuel s g nd
       = Inr (Some (filter (\<lambda>r. case meta r of None \<Rightarrow> False
            | Some m \<Rightarrow> map_of m (name (heap s ! root (heap s ! g))) = Some (MStr (name (heap s ! g))))
          rs))"
  by (simp add: list_resources_loop_filter)

lemma resolve_walker_sorted:
  "sorter (heap s ! g) = Some x \<Longrightarrow> x \<noteq> [] \<Longrightarrow>
     resolve_walker s g nd =
       (case node_methods s (''walk_resources_sorted_by_'' @ x) of
          Some m \<Rightarrow> Attached m
        | None \<Rightarrow> (case map_of (node_attrs nd) (''walk_resources_sorted_by_'' @ x) of
            Some w \<Rightarrow> Host_walker w
          | None \<Rightarrow> (case node_methods s ''walk_resources'' of
              Some m \<Rightarrow> Attached m
            | None \<Rightarrow> Host_walker (walk_resources nd))))"
  by (simp add: resolve_walker_def getattr_node_def split: option.splits)

lemma resolve_walker_unsorted:
  "sorter (heap s ! g) = None \<or> sorter (heap s ! g) = Some [] \<Longrightarrow>
     resolve_walker s g nd =
       (case node_methods s ''walk_resources'' of
          Some m \<Rightarrow> Attached m
        | None \<Rightarrow> Host_walker (walk_resources nd))"
  by (auto simp: resolve_walker_def getattr_node_def split: option.splits)

declare list_resources.simps [simp del]

text \<open>
  Claim C1. When no capability is attached to \<open>Node\<close> under the name of the walk that
  the group asks for, \<open>list_resources\<close> ends without an error, whatever the fuel, and
  yields the resources of the chosen node traversal whose \<open>meta\<close> has, in the field
  named after the root of the group, the name of the group, in the order of the traversal.
  The chosen traversal is the attribute \<open>walk_resources_sorted_by_x\<close> of the node for a
  group with the non-empty sorter \<open>x\<close> when the node has it, and \<open>walk_resources\<close>
  of the node otherwise. So a resource is yielded exactly when the traversal has it and its
  field equals the name; a resource without \<open>meta\<close> or without the field is left out
  and is no error.
\<close>

theorem list_resources_iff:
  assumes "node_methods s ''walk_resources'' = None"
    and "case sorter (heap s ! g) of
           None \<Rightarrow> True
         | Some x \<Rightarrow> x = [] \<or> node_methods s (''walk_resources_sorted_by_'' @ x) = None"
  shows "list_resources fuel s g nd
       = Inr (Some (filter
           (\<lambda>r. case meta r of
                  None \<Rightarrow> False
                | Some m \<Rightarrow> map_of m (name (heap s ! root (heap s ! g)))
                             = Some (MStr (name (heap s ! g))))
           (case sorter (heap s ! g) of
              None \<Rightarrow> walk_resources nd
            | Some x \<Rightarrow>
                if x = [] then walk_resources nd
                else case map_of (node_attrs nd) (''walk_resources_sorted_by_'' @ x) of
                       None \<Rightarrow> walk_resources nd
                     | Some w \<Rightarrow> w)))
     \<and> (r \<in> set (yields (list_resources fuel s g nd)) \<longleftrightarrow>
          r \<in> set (case sorter (heap s ! g) of
                      None \<Rightarrow> walk_resources nd
                    | Some x \<Rightarrow>
                        if x = [] then walk_resources nd
                        else case map_of (node_attrs nd) (''walk_resources_sorted_by_'' @ x) of
                               None \<Rightarrow> walk_resources nd
                             | Some w \<Rightarrow> w)
          \<and> (\<exists>m. meta r = Some m
                 \<and> map_of m (name (heap s ! root (heap s ! g)))
                     = Some (MStr (name (heap s ! g)))))
     \<and> (meta r = None
          \<or> (\<exists>m. meta r = Some m \<and> map_of m (name (heap s ! root (heap s ! g))) = None)
        \<longrightarrow> r \<notin> set (yields (list_resources fuel s g nd)))"
proof -
  let ?W = "case sorter (heap s ! g) of
              None \<Rightarrow> walk_resources nd
            | Some x \<Rightarrow>
                if x = [] then walk_resources nd
                else case map_of (node_attrs nd) (''walk_resources_sorted_by_'' @ x) of
                       None \<Rightarrow> walk_resources nd
                     | Some w \<Rightarrow> w"
  let ?P = "\<lambda>r. case meta r of
                  None \<Rightarrow> False
                | Some m \<Rightarrow> map_of m (name (heap s ! root (heap s ! g)))
                             = Some (MStr (name (heap s ! g)))"
  have "resolve_walker s g nd = Host_walker ?W"
  proof (cases "sorter (heap s ! g)")
    case None
    with assms(1) show ?thesis by (simp add: resolve_walker_unsorted)
  next
    case (Some x)
    show ?thesis
    proof (cases "x = []")
      case True
      with Some assms(1) show ?thesis by (simp add: resolve_walker_unsorted)
    next
      case False
      with Some assms show ?thesis
        by (simp add: resolve_walker_sorted split: option.splits)
    qed
  qed
  then have res: "list_resources fuel s g nd = Inr (Some (filter ?P ?W))"
    by (rule list_resources_host)
  have mem: "r \<in> set (yields (list_resources fuel s g nd)) \<longleftrightarrow>
      r \<in> set ?W \<and> (\<exists>m. meta r = Some m
         \<and> map_of m (name (heap s ! root (heap s ! g))) = Some (MStr (name (heap s ! g))))"
    unfolding res by (cases "meta r") simp_all
  have skip: "meta r = None
          \<or> (\<exists>m. meta r = Some m \<and> map_of m (name (heap s ! root (heap s ! g))) = None)
        \<longrightarrow> r \<notin> set (yields (list_resources fuel s g nd))"
    unfolding res by (cases "meta r") auto
  from res mem skip show ?thesis by (intro conjI)
qed

theorem list_resources_iff_witness:
  "node_methods kind_state ''walk_resources'' = None
   \<and> sorter (heap kind_state ! 1) = Some ''kind''
   \<and> node_methods kind_state (''walk_resources_sorted_by_'' @ ''kind'') = None
   \<and> list_resources 0 kind_state 1 sorted_node = Inr (Some [resource_a])
   \<and> meta resource_d = None
   \<and> resource_d \<notin> set (yields (list_resources 0 kind_state 1 sorted_node))
   \<and> meta resource_c = Some [(''kind'', MStr ''a'')]
   \<and> map_of [(''kind'', MStr ''a'')] (name (heap kind_state ! root (heap kind_state ! 1))) = None
   \<and> resource_c \<notin> set (yields (list_resources 0 kind_state 1 sorted_node))"
proof -
  have a: "node_methods kind_state ''walk_resources'' = None" by (simp add: kind_state_def)
  have b: "sorter (heap kind_state ! 1) = Some ''kind''" by (simp add: kind_state_def)
  have c: "node_methods kind_state (''walk_resources_sorted_by_'' @ ''kind'') = None"
    by (simp add: kind_state_def)
  from b c have h: "case sorter (heap kind_state ! 1) of
           None \<Rightarrow> True
         | Some x \<Rightarrow> x = [] \<or> node_methods kind_state (''walk_resources_sorted_by_'' @ x) = None"
    by simp
  have d: "meta resource_d = None" by (simp add: resource_d_def)
  have e: "meta resource_c = Some [(''kind'', MStr ''a'')]" by (simp add: resource_c_def)
  have f: "map_of [(''kind'', MStr ''a'')] (name (heap kind_state ! root (heap kind_state ! 1)))
      = None"
    by (simp add: kind_state_def)
  have ev: "filter
           (\<lambda>r. case meta r of
                  None \<Rightarrow> False
                | Some m \<Rightarrow> map_of m (name (heap kind_state ! root (heap kind_state ! 1)))
                             = Some (MStr (name (heap kind_state ! 1))))
           (case sorter (heap kind_state ! 1) of
              None \<Rightarrow> walk_resources sorted_node
            | Some x \<Rightarrow>
                if x = [] then walk_resources sorted_node
                else case map_of (node_attrs sorted_node) (''walk_resources_sorted_by_'' @ x) of
                       None \<Rightarrow> walk_resources sorted_node
                     | Some w \<Rightarrow> w) = [resource_a]"
    by code_simp
  from list_resources_iff[OF a h, of 0 sorted_node resource_d] d
  have 1: "list_resources 0 kind_state 1 sorted_node = Inr (Some [resource_a])"
    and 2: "resource_d \<notin> set (yields (list_resources 0 kind_state 1 sorted_node))"
    unfolding ev by blast+
  from list_resources_iff[OF a h, of 0 sorted_node resource_c] e f
  have 3: "resource_c \<notin> set (yields (list_resources 0 kind_state 1 sorted_node))"
    by blast
  from a b c d e f 1 2 3 show ?thesis by (intro conjI)
qed

text \<open>
  Claim C6. For a group with a resolved, non-empty sorter \<open>x\<close>, \<open>list_resources\<close>
  traverses the node through its attribute \<open>walk_resources_sorted_by_x\<close> when the node
  has it, and through \<open>walk_resources\<close> when it has not; a group without a sorter (or
  with the empty one) uses \<open>walk_resources\<close>. None of these cases raises an error or
  needs fuel. The attribute lookup finds a capability first that \<open>Group\<close> has attached
  to \<open>Node\<close> under the very name (\<open>walk_y_groups\<close> is such a name when \<open>y\<close> is
  \<open>resources_sorted_by_z\<close> and the sorter is \<open>z_groups\<close>): then the walker is that
  capability, also when the node has no such sorted walk, and \<open>list_resources\<close>
  matches on what the capability yields. The same holds for a capability attached under
  the name \<open>walk_resources\<close> itself.
\<close>

theorem list_resources_walker:
  "(sorter (heap s ! g) = Some x \<and> x \<noteq> []
      \<and> node_methods s (''walk_resources_sorted_by_'' @ x) = None
      \<and> map_of (node_attrs nd) (''walk_resources_sorted_by_'' @ x) = Some w
     \<longrightarrow> resolve_walker s g nd = Host_walker w
         \<and> list_resources fuel s g nd
             = Inr (Some (filter
                 (\<lambda>r. case meta r of
                        None \<Rightarrow> False
                      | Some m \<Rightarrow> map_of m (name (heap s ! root (heap s ! g)))
                                   = Some (MStr (name (heap s ! g))))
                 w)))
   \<and> (sorter (heap s ! g) = Some x \<and> x \<noteq> []
      \<and> node_methods s (''walk_resources_sorted_by_'' @ x) = None
      \<and> map_of (node_attrs nd) (''walk_resources_sorted_by_'' @ x) = None
      \<and> node_methods s ''walk_resources'' = None
     \<longrightarrow> resolve_walker s g nd = Host_walker (walk_resources nd)
         \<and> list_resources fuel s g nd
             = Inr (Some (filter
                 (\<lambda>r. case meta r of
                        None \<Rightarrow> False
                      | Some m \<Rightarrow> map_of m (name (heap s ! root (heap s ! g)))
                                   = Some (MStr (name (heap s ! g))))
                 (walk_resources nd))))
   \<and> ((sorter (heap s ! g) = None \<or> sorter (heap s ! g) = Some [])
      \<and> node_methods s ''walk_resources'' = None
     \<longrightarrow> resolve_walker s g nd = Host_walker (walk_resources nd)
         \<and> list_resources fuel s g nd
             = Inr (Some (filter
                 (\<lambda>r. case meta r of
                        None \<Rightarrow> False
                      | Some m \<Rightarrow> map_of m (name (heap s ! root (heap s ! g)))
                                   = Some (MStr (name (heap s ! g))))
                 (walk_resources nd))))
   \<and> (sorter (heap s ! g) = Some x \<and> x \<noteq> []
      \<and> node_methods s (''walk_resources_sorted_by_'' @ x) = Some c
     \<longrightarrow> resolve_walker s g nd = Attached c
         \<and> list_resources 0 s g nd = Inr None
         \<and> list_resources (Suc fuel) s g nd
             = (case call c fuel s nd of
                  Inl e \<Rightarrow> Inl e
                | Inr None \<Rightarrow> Inr None
                | Inr (Some (Yield_groups gs)) \<Rightarrow> Inr (Some [])
                | Inr (Some (Yield_resources rs)) \<Rightarrow>
                    Inr (Some (filter
                      (\<lambda>r. case meta r of
                             None \<Rightarrow> False
                           | Some m \<Rightarrow> map_of m (name (heap s ! root (heap s ! g)))
                                        = Some (MStr (name (heap s ! g))))
                      rs))))
   \<and> (node_methods s ''walk_resources'' = Some c
      \<and> (sorter (heap s ! g) = None \<or> sorter (heap s ! g) = Some []
         \<or> sorter (heap s ! g) = Some x \<and> x \<noteq> []
            \<and> node_methods s (''walk_resources_sorted_by_'' @ x) = None
            \<and> map_of (node_attrs nd) (''walk_resources_sorted_by_'' @ x) = None)
     \<longrightarrow> resolve_walker s g nd = Attached c)"
proof (intro conjI impI)
  assume a: "node_methods s ''walk_resources'' = Some c
      \<and> (sorter (heap s ! g) = None \<or> sorter (heap s ! g) = Some []
         \<or> sorter (heap s ! g) = Some x \<and> x \<noteq> []
            \<and> node_methods s (''walk_resources_sorted_by_'' @ x) = None
            \<and> map_of (node_attrs nd) (''walk_resources_sorted_by_'' @ x) = None)"
  then consider "sorter (heap s ! g) = None \<or> sorter (heap s ! g) = Some []"
    | "sorter (heap s ! g) = Some x" "x \<noteq> []"
      "node_methods s (''walk_resources_sorted_by_'' @ x) = None"
      "map_of (node_attrs nd) (''walk_resources_sorted_by_'' @ x) = None"
    by auto
  then show "resolve_walker s g nd = Attached c"
  proof cases
    case 1
    with a show ?thesis by (simp add: resolve_walker_unsorted)
  next
    case 2
    with a show ?thesis by (simp add: resolve_walker_sorted)
  qed
next
  assume a: "sorter (heap s ! g) = Some x \<and> x \<noteq> []
      \<and> node_methods s (''walk_resources_sorted_by_'' @ x) = None
      \<and> map_of (node_attrs nd) (''walk_resources_sorted_by_'' @ x) = Some w"
  then show 1: "resolve_walker s g nd = Host_walker w" by (simp add: resolve_walker_sorted)
  then show "list_resources fuel s g nd
             = Inr (Some (filter
                 (\<lambda>r. case meta r of
                        None \<Rightarrow> False
                      | Some m \<Rightarrow> map_of m (name (heap s ! root (heap s ! g)))
                                   = Some (MStr (name (heap s ! g))))
                 w))"
    by (rule list_resources_host)
next
  assume a: "sorter (heap s ! g) = Some x \<and> x \<noteq> []
      \<and> node_methods s (''walk_resources_sorted_by_'' @ x) = None
      \<and> map_of (node_attrs nd) (''walk_resources_sorted_by_'' @ x) = None
      \<and> node_methods s ''walk_resources'' = None"
  then show 1: "resolve_walker s g nd = Host_walker (walk_resources nd)"
    by (simp add: resolve_walker_sorted)
  then show "list_resources fuel s g nd
             = Inr (Some (filter
                 (\<lambda>r. case meta r of
                        None \<Rightarrow> False
                      | Some m \<Rightarrow> map_of m (name (heap s ! root (heap s ! g)))
                                   = Some (MStr (name (heap s ! g))))
                 (walk_resources nd)))"
    by (rule list_resources_host)
next
  assume a: "(sorter (heap s ! g) = None \<or> sorter (heap s ! g) = Some [])
      \<and> node_methods s ''walk_resources'' = None"
  then show 1: "resolve_walker s g nd = Host_walker (walk_resources nd)"
    by (simp add: resolve_walker_unsorted)
  then show "list_resources fuel s g nd
             = Inr (Some (filter
                 (\<lambda>r. case meta r of
                        None \<Rightarrow> False
                      | Some m \<Rightarrow> map_of m (name (heap s ! root (heap s ! g)))
                                   = Some (MStr (name (heap s ! g))))
                 (walk_resources nd)))"
    by (rule list_resources_host)
next
  assume a: "sorter (heap s ! g) = Some x \<and> x \<noteq> []
      \<and> node_methods s (''walk_resources_sorted_by_'' @ x) = Some c"
  then show 1: "resolve_walker s g nd = Attached c" by (simp add: resolve_walker_sorted)
  then show "list_resources 0 s g nd = Inr None" by (simp add: list_resources.simps)
  from 1 show "list_resources (Suc fuel) s g nd
             = (case call c fuel s nd of
                  Inl e \<Rightarrow> Inl e
                | Inr None \<Rightarrow> Inr None
                | Inr (Some (Yield_groups gs)) \<Rightarrow> Inr (Some [])
                | Inr (Some (Yield_resources rs)) \<Rightarrow>
                    Inr (Some (filter
                      (\<lambda>r. case meta r of
                             None \<Rightarrow> False
                           | Some m \<Rightarrow> map_of m (name (heap s ! root (heap s ! g)))
                                        = Some (MStr (name (heap s ! g))))
                      rs)))"
    by (simp add: list_resources.simps list_resources_loop_filter
        split: sum.splits option.splits yielded.splits)
qed

theorem list_resources_walker_witness:
  "sorter (heap kind_state ! 1) = Some ''kind'' \<and> ''kind'' \<noteq> []
   \<and> node_methods kind_state (''walk_resources_sorted_by_'' @ ''kind'') = None
   \<and> node_methods kind_state ''walk_resources'' = None
   \<and> map_of (node_attrs sorted_node) (''walk_resources_sorted_by_'' @ ''kind'')
       = Some [resource_b, resource_d, resource_c, resource_a]
   \<and> resolve_walker kind_state 1 sorted_node
       = Host_walker [resource_b, resource_d, resource_c, resource_a]
   \<and> map_of (node_attrs topics_node) (''walk_resources_sorted_by_'' @ ''kind'') = None
   \<and> resolve_walker kind_state 1 topics_node = Host_walker (walk_resources topics_node)
   \<and> sorter (heap kind_state ! 2) = None
   \<and> resolve_walker kind_state 2 sorted_node = Host_walker (walk_resources sorted_node)
   \<and> sorter (heap colliding_state ! 1) = Some ''kind_groups'' \<and> ''kind_groups'' \<noteq> []
   \<and> node_methods colliding_state (''walk_resources_sorted_by_'' @ ''kind_groups'')
       = Some (Walk_groups_in_node 0)
   \<and> resolve_walker colliding_state 1 topics_node = Attached (Walk_groups_in_node 0)
   \<and> list_resources 0 colliding_state 1 topics_node = Inr None
   \<and> list_resources (Suc 1) colliding_state 1 topics_node = Inr (Some [])
   \<and> node_methods (kind_state\<lparr>node_methods := [''walk_resources'' \<mapsto> Walk_resources 0]\<rparr>)
         ''walk_resources'' = Some (Walk_resources 0)
   \<and> resolve_walker (kind_state\<lparr>node_methods := [''walk_resources'' \<mapsto> Walk_resources 0]\<rparr>)
         2 sorted_node = Attached (Walk_resources 0)"
proof -
  have e: "node_methods (kind_state\<lparr>node_methods := [''walk_resources'' \<mapsto> Walk_resources 0]\<rparr>)
         ''walk_resources'' = Some (Walk_resources 0)
      \<and> (sorter (heap (kind_state\<lparr>node_methods := [''walk_resources'' \<mapsto> Walk_resources 0]\<rparr>)
              ! 2) = None
         \<or> sorter (heap (kind_state\<lparr>node_methods := [''walk_resources'' \<mapsto> Walk_resources 0]\<rparr>)
              ! 2) = Some []
         \<or> sorter (heap (kind_state\<lparr>node_methods := [''walk_resources'' \<mapsto> Walk_resources 0]\<rparr>)
              ! 2) = Some []
            \<and> [] \<noteq> ([] :: string)
            \<and> node_methods (kind_state\<lparr>node_methods := [''walk_resources'' \<mapsto> Walk_resources 0]\<rparr>)
                  (''walk_resources_sorted_by_'' @ []) = None
            \<and> map_of (node_attrs sorted_node) (''walk_resources_sorted_by_'' @ []) = None)"
    by (simp add: kind_state_def)
  from e list_resources_walker[where
      s = "kind_state\<lparr>node_methods := [''walk_resources'' \<mapsto> Walk_resources 0]\<rparr>"
      and g = 2 and x = "[]" and nd = sorted_node and c = "Walk_resources 0"]
  have 7: "resolve_walker (kind_state\<lparr>node_methods := [''walk_resources'' \<mapsto> Walk_resources 0]\<rparr>)
         2 sorted_node = Attached (Walk_resources 0)"
    by blast
  have e': "node_methods (kind_state\<lparr>node_methods := [''walk_resources'' \<mapsto> Walk_resources 0]\<rparr>)
         ''walk_resources'' = Some (Walk_resources 0)"
    by simp
  have a: "sorter (heap kind_state ! 1) = Some ''kind'' \<and> ''kind'' \<noteq> []
      \<and> node_methods kind_state (''walk_resources_sorted_by_'' @ ''kind'') = None
      \<and> map_of (node_attrs sorted_node) (''walk_resources_sorted_by_'' @ ''kind'')
          = Some [resource_b, resource_d, resource_c, resource_a]"
    by (simp add: kind_state_def sorted_node_def)
  have b: "sorter (heap kind_state ! 1) = Some ''kind'' \<and> ''kind'' \<noteq> []
      \<and> node_methods kind_state (''walk_resources_sorted_by_'' @ ''kind'') = None
      \<and> map_of (node_attrs topics_node) (''walk_resources_sorted_by_'' @ ''kind'') = None
      \<and> node_methods kind_state ''walk_resources'' = None"
    by (simp add: kind_state_def topics_node_def)
  have c: "(sorter (heap kind_state ! 2) = None \<or> sorter (heap kind_state ! 2) = Some [])
      \<and> node_methods kind_state ''walk_resources'' = None"
    by (simp add: kind_state_def)
  have c': "sorter (heap kind_state ! 2) = None" by (simp add: kind_state_def)
  have d1: "sorter (heap colliding_state ! 1) = Some ''kind_groups''" by code_simp
  have d2: "node_methods colliding_state (''walk_resources_sorted_by_'' @ ''kind_groups'')
       = Some (Walk_groups_in_node 0)" by code_simp
  have d: "sorter (heap colliding_state ! 1) = Some ''kind_groups'' \<and> ''kind_groups'' \<noteq> []
      \<and> node_methods colliding_state (''walk_resources_sorted_by_'' @ ''kind_groups'')
          = Some (Walk_groups_in_node 0)"
    using d1 d2 by simp
  from a list_resources_walker[where s = kind_state and g = 1 and x = "''kind''"
      and nd = sorted_node and w = "[resource_b, resource_d, resource_c, resource_a]"]
  have 1: "resolve_walker kind_state 1 sorted_node
      = Host_walker [resource_b, resource_d, resource_c, resource_a]" by blast
  from b list_resources_walker[where s = kind_state and g = 1 and x = "''kind''"
      and nd = topics_node]
  have 2: "resolve_walker kind_state 1 topics_node = Host_walker (walk_resources topics_node)"
    by blast
  from c list_resources_walker[where s = kind_state and g = 2 and nd = sorted_node]
  have 3: "resolve_walker kind_state 2 sorted_node = Host_walker (walk_resources sorted_node)"
    by blast
  from d list_resources_walker[where s = colliding_state and g = 1 and x = "''kind_groups''"
      and nd = topics_node and c = "Walk_groups_in_node 0"]
  have 4: "resolve_walker colliding_state 1 topics_node = Attached (Walk_groups_in_node 0)"
    and 5: "list_resources 0 colliding_state 1 topics_node = Inr None"
    by blast+
  have ev: "call (Walk_groups_in_node 0) 1 colliding_state topics_node
      = Inr (Some (Yield_groups []))"
    by code_simp
  from d list_resources_walker[where s = colliding_state and g = 1 and x = "''kind_groups''"
      and nd = topics_node and c = "Walk_groups_in_node 0" and fuel = 1]
  have "list_resources (Suc 1) colliding_state 1 topics_node
      = (case call (Walk_groups_in_node 0) 1 colliding_state topics_node of
           Inl e \<Rightarrow> Inl e
         | Inr None \<Rightarrow> Inr None
         | Inr (Some (Yield_groups gs)) \<Rightarrow> Inr (Some [])
         | Inr (Some (Yield_resources rs)) \<Rightarrow>
             Inr (Some (filter
               (\<lambda>r. case meta r of
                      None \<Rightarrow> False
                    | Some m \<Rightarrow> map_of m (name (heap colliding_state
                                   ! root (heap colliding_state ! 1)))
                                 = Some (MStr (name (heap colliding_state ! 1))))
               rs)))"
    by blast
  then have 6: "list_resources (Suc 1) colliding_state 1 topics_node = Inr (Some [])"
    unfolding ev by simp
  from a b c' d 1 2 3 4 5 6 e' 7 show ?thesis by (intro conjI) simp_all
qed

subsection \<open>The constructed tree\<close>

lemma methods_self:
  "node_methods (snd (Group_init g par s)) (''walk_'' @ group_name g @ ''_groups'')
     = Some (Walk_groups_in_node (length (heap s)))"
  "node_methods (snd (Group_init g par s)) (''walk_resources_grouped_by_'' @ group_name g)
     = Some (Walk_resources (length (heap s)))"
proof -
  have neq: "''walk_'' @ group_name g @ ''_groups'' \<noteq> ''walk_resources_grouped_by_'' @ group_name g"
  proof
    assume "''walk_'' @ group_name g @ ''_groups'' = ''walk_resources_grouped_by_'' @ group_name g"
    then have "length (''walk_'' @ group_name g @ ''_groups'')
        = length (''walk_resources_grouped_by_'' @ group_name g)" by (rule arg_cong)
    then show False by simp
  qed
  obtain d where g: "g = Grouping d" by (cases g)
  have m: "node_methods (snd (Group_init g par s)) =
      (node_methods (Expando_update d (length (heap s)) (new_group d par s)))
        (''walk_'' @ group_name g @ ''_groups'' \<mapsto> Walk_groups_in_node (length (heap s)),
         ''walk_resources_grouped_by_'' @ group_name g \<mapsto> Walk_resources (length (heap s)))"
    unfolding g by (simp only: snd_Group_init node_methods_attach name_Group_init
        group_name_def grouping.sel)
  show "node_methods (snd (Group_init g par s)) (''walk_'' @ group_name g @ ''_groups'')
     = Some (Walk_groups_in_node (length (heap s)))"
    unfolding m using neq by (simp only: fun_upd_apply if_False if_True refl)
  show "node_methods (snd (Group_init g par s)) (''walk_resources_grouped_by_'' @ group_name g)
     = Some (Walk_resources (length (heap s)))"
    unfolding m by (simp only: fun_upd_apply if_True refl)
qed


lemma walk_resources_loop_concat:
  "(\<And>x. x \<in> set gs \<Longrightarrow> \<not> shadowed (heap t) x ''list_resources'') \<Longrightarrow>
   (\<And>x. x \<in> set gs \<Longrightarrow> \<exists>rs. list_resources fuel t x nd = Inr (Some rs)) \<Longrightarrow>
     walk_resources_loop fuel t nd gs
       = Inr (Some (concat (map (\<lambda>x. yields (list_resources fuel t x nd)) gs)))"
proof (induction gs)
  case Nil
  show ?case by simp
next
  case (Cons g gs)
  from Cons.prems(1)[of g] have ns: "\<not> shadowed (heap t) g ''list_resources''" by simp
  from Cons.prems(2)[of g] obtain rs where rs: "list_resources fuel t g nd = Inr (Some rs)"
    by auto
  have ih: "walk_resources_loop fuel t nd gs
       = Inr (Some (concat (map (\<lambda>x. yields (list_resources fuel t x nd)) gs)))"
    by (rule Cons.IH) (simp_all add: Cons.prems)
  show ?case by (simp add: ns rs ih)
qed

lemma shadowed_iff: "shadowed h g m \<longleftrightarrow> map_of (extra (h ! g)) m \<noteq> None"
  by (simp add: shadowed_def split: option.splits)

text \<open>The walk of a constructed tree, with any fuel that suffices.\<close>

lemma walk_tree:
  assumes "wf_grouping g" and "method_free g" and "count_groups g \<le> fuel"
  shows "walk_groups fuel (heap (snd (Group_init g par s))) (length (heap s))
     = Inr (Some [length (heap s) ..< length (heap s) + count_groups g])"
proof -
  from walk_constructed(1)[OF assms(1,2), of par s]
  have "walk_groups (count_groups g) (heap (snd (Group_init g par s))) (length (heap s))
     = Inr (Some [length (heap s) ..< length (heap s) + count_groups g])"
    by (simp add: length_heap)
  then show ?thesis using assms(3) by (rule walk_mono(1))
qed

lemma root_Group_init:
  "(\<And>q. par = Some q \<Longrightarrow> q < length (heap s)) \<Longrightarrow> length (heap s) \<le> i \<Longrightarrow>
     i < length (heap s) + count_groups g \<Longrightarrow>
     root (heap (snd (Group_init g par s)) ! i) =
       (case par of None \<Rightarrow> length (heap s) | Some q \<Rightarrow> root (heap s ! q))"
  using roots(1)[of par s i g] by (simp add: length_heap)

lemma walk_groups_list_concat:
  "walk_groups_list n h gs = Inr (Some ys) \<Longrightarrow>
     ys = concat (map (\<lambda>c. yields (walk_groups n h c)) gs)"
proof (induction gs arbitrary: ys)
  case (Cons g gs)
  from Cons.prems obtain xs zs where a: "walk_groups n h g = Inr (Some xs)"
    "walk_groups_list n h gs = Inr (Some zs)" "ys = xs @ zs"
    by (auto split: if_splits sum.splits option.splits)
  from Cons.IH[OF a(2)] a show ?case by simp
qed simp

lemma walk_groups_unfold:
  assumes "walk_groups fuel h x = Inr (Some xs)"
  shows "xs = x # concat (map (\<lambda>c. yields (walk_groups (fuel - 1) h c)) (groups (h ! x)))"
proof (cases fuel)
  case 0
  with assms show ?thesis by simp
next
  case (Suc n)
  with assms obtain ys where a: "walk_groups_list n h (groups (h ! x)) = Inr (Some ys)"
    "xs = x # ys"
    by (auto split: sum.splits option.splits)
  from walk_groups_list_concat[OF a(1)] a(2) Suc show ?thesis by simp
qed

text \<open>
  Claim C4. For a configured grouping tree without an entry that is named after a method,
  \<open>walk_groups\<close> from the constructed group returns (with fuel for the number of
  configured groups) the objects that the construction has created, in the order of their
  creation: as many as groups are configured, none twice, the group itself first, and with
  the names of the configuration in depth-first pre-order, that is the group and then the
  subtree of each sub-group in configuration order. The sequence is the group followed by
  the full sequences of the entries of its \<open>groups\<close> list, in the order of the list.
  Every group but the first has its parent earlier in the sequence. On any store, a
  sub-group with a dynamic attribute \<open>walk_groups\<close> makes the walk raise
  \<open>TypeError\<close> at line 84.
\<close>

theorem walk_groups_preorder:
  assumes "wf_grouping g" and "method_free g" and "count_groups g \<le> fuel"
  shows "walk_groups fuel (heap (snd (Group_init g par s))) (fst (Group_init g par s))
           = Inr (Some [length (heap s) ..< length (heap s) + count_groups g])
       \<and> fst (Group_init g par s) = length (heap s)
       \<and> length [length (heap s) ..< length (heap s) + count_groups g] = count_groups g
       \<and> distinct [length (heap s) ..< length (heap s) + count_groups g]
       \<and> map (\<lambda>i. name (heap (snd (Group_init g par s)) ! i))
            [length (heap s) ..< length (heap s) + count_groups g] = names g
       \<and> [length (heap s) ..< length (heap s) + count_groups g]
           = length (heap s)
             # concat (map (\<lambda>c. yields (walk_groups (fuel - 1) (heap (snd (Group_init g par s))) c))
                 (groups (heap (snd (Group_init g par s)) ! length (heap s))))
       \<and> (\<forall>i. length (heap s) < i \<and> i < length (heap s) + count_groups g \<longrightarrow>
            (\<exists>p. parent (heap (snd (Group_init g par s)) ! i) = Some p
               \<and> length (heap s) \<le> p \<and> p < i))
       \<and> (map_of (extra (h ! c)) ''walk_groups'' = Some v \<longrightarrow>
            walk_groups_list n h (c # cs) = Inl TypeError)
       \<and> (groups (h ! x) = c # cs \<and> map_of (extra (h ! c)) ''walk_groups'' = Some v \<longrightarrow>
            walk_groups (Suc n) h x = Inl TypeError)"
proof -
  let ?h = "heap (snd (Group_init g par s))"
  have len: "length ?h = length (heap s) + count_groups g" by (rule length_heap(1))
  have w: "walk_groups fuel ?h (length (heap s))
      = Inr (Some [length (heap s) ..< length (heap s) + count_groups g])"
    using assms by (rule walk_tree)
  have w': "walk_groups fuel ?h (fst (Group_init g par s))
      = Inr (Some [length (heap s) ..< length (heap s) + count_groups g])"
    using w by simp
  have u: "[length (heap s) ..< length (heap s) + count_groups g]
      = length (heap s)
        # concat (map (\<lambda>c. yields (walk_groups (fuel - 1) ?h c)) (groups (?h ! length (heap s))))"
    using w by (rule walk_groups_unfold)
  have n: "map (\<lambda>i. name (?h ! i)) [length (heap s) ..< length (heap s) + count_groups g]
      = names g"
    using names_constructed(1)[of g par s] by (simp add: len)
  have p: "\<forall>i. length (heap s) < i \<and> i < length (heap s) + count_groups g \<longrightarrow>
       (\<exists>p. parent (?h ! i) = Some p \<and> length (heap s) \<le> p \<and> p < i)"
    using parents(1)[of s _ g par] by (simp add: len)
  have l: "length [length (heap s) ..< length (heap s) + count_groups g] = count_groups g"
    by simp
  have d: "distinct [length (heap s) ..< length (heap s) + count_groups g]" by simp
  have e1: "map_of (extra (h ! c)) ''walk_groups'' = Some v \<longrightarrow>
            walk_groups_list n h (c # cs) = Inl TypeError"
    by (simp add: shadowed_def)
  have e2: "groups (h ! x) = c # cs \<and> map_of (extra (h ! c)) ''walk_groups'' = Some v \<longrightarrow>
            walk_groups (Suc n) h x = Inl TypeError"
    by (simp add: shadowed_def)
  show ?thesis
    using w' u n p l d e1 e2 by (intro conjI) (rule fst_Group_init | assumption)+
qed

theorem walk_groups_preorder_witness:
  "wf_grouping topics_tree \<and> method_free topics_tree \<and> count_groups topics_tree \<le> 3
   \<and> walk_groups 3 (heap (snd (Group_init topics_tree None empty_state)))
        (fst (Group_init topics_tree None empty_state)) = Inr (Some [0, 1, 2])
   \<and> map (\<lambda>i. name (heap (snd (Group_init topics_tree None empty_state)) ! i)) [0, 1, 2]
       = [''topics'', ''a'', ''b'']
   \<and> groups (heap (snd (Group_init shadowing_grouping None empty_state)) ! 0) = [1]
   \<and> map_of (extra (heap (snd (Group_init shadowing_grouping None empty_state)) ! 1))
         ''walk_groups'' = Some ''none''
   \<and> walk_groups (Suc 1) (heap (snd (Group_init shadowing_grouping None empty_state))) 0
       = Inl TypeError"
proof -
  have wf: "wf_grouping topics_tree" by (simp add: topics_tree_def)
  have mf: "method_free topics_tree" by (simp add: topics_tree_def)
  have le: "count_groups topics_tree \<le> 3" by (simp add: topics_tree_def)
  have r: "[length (heap empty_state) ..< length (heap empty_state) + count_groups topics_tree]
      = [0, 1, 2]"
    by code_simp
  have n: "names topics_tree = [''topics'', ''a'', ''b'']" by (simp add: topics_tree_def)
  have g: "groups (heap (snd (Group_init shadowing_grouping None empty_state)) ! 0) = [1]"
    by code_simp
  have e: "map_of (extra (heap (snd (Group_init shadowing_grouping None empty_state)) ! 1))
         ''walk_groups'' = Some ''none''"
    by code_simp
  note inst = walk_groups_preorder[OF wf mf le, of None empty_state
      "heap (snd (Group_init shadowing_grouping None empty_state))" 1 "''none''" 1 "[]" 0]
  from inst g e
  have t: "walk_groups (Suc 1) (heap (snd (Group_init shadowing_grouping None empty_state))) 0
       = Inl TypeError" by blast
  from inst have
    "walk_groups 3 (heap (snd (Group_init topics_tree None empty_state)))
        (fst (Group_init topics_tree None empty_state)) = Inr (Some [0, 1, 2])"
    "map (\<lambda>i. name (heap (snd (Group_init topics_tree None empty_state)) ! i)) [0, 1, 2]
       = [''topics'', ''a'', ''b'']"
    unfolding r n by blast+
  with wf mf le g e t show ?thesis by (intro conjI)
qed

lemma top_mono: "top n h g = Some r \<Longrightarrow> n \<le> m \<Longrightarrow> top m h g = Some r"
proof (induction n h g arbitrary: m rule: top.induct)
  case (2 n h g)
  then obtain m' where "m = Suc m'" "n \<le> m'" by (cases m) auto
  with 2 show ?case by (auto split: option.splits)
qed simp

lemma top_reaches:
  assumes par: "\<And>i. l < i \<Longrightarrow> i < l' \<Longrightarrow> \<exists>p. parent (h ! i) = Some p \<and> l \<le> p \<and> p < i"
    and rt: "parent (h ! l) = None"
  shows "l \<le> i \<Longrightarrow> i < l' \<Longrightarrow> top (Suc (i - l)) h i = Some l"
proof (induction i rule: less_induct)
  case (less i)
  show ?case
  proof (cases "i = l")
    case True
    with rt show ?thesis by simp
  next
    case False
    with less(2) have "l < i" by simp
    from par[OF this less(3)] obtain p where p: "parent (h ! i) = Some p" "l \<le> p" "p < i"
      by auto
    from p(3) less(3) have "p < l'" by simp
    from less(1)[OF p(3) p(2) this] have "top (Suc (p - l)) h p = Some l" .
    moreover from p have "Suc (p - l) \<le> i - l" by simp
    ultimately have "top (i - l) h p = Some l" by (rule top_mono)
    then show ?thesis by (simp only: top.simps p(1) option.case)
  qed
qed

text \<open>
  Claim C9. In a constructed tree every entry of the \<open>groups\<close> list of a group is a
  group object of the tree whose \<open>parent\<close> is that group; every group of the tree has the
  \<open>root\<close> of the construction (the constructed group itself when no parent is given,
  the root of the parent otherwise), the same as its parent has; following the \<open>parent\<close>
  links from any group of a tree without outer parent ends at the root; and
  \<open>list_resources\<close> of every group matches what its walker yields on the field named
  by the root.
\<close>

theorem group_tree_links:
  assumes "wf_grouping g"
    and "length (heap s) \<le> i" and "i < length (heap s) + count_groups g"
    and "\<And>q. par = Some q \<Longrightarrow> q < length (heap s)"
  shows "fst (Group_init g par s) = length (heap s)
       \<and> root (heap (snd (Group_init g par s)) ! i)
           = (case par of None \<Rightarrow> length (heap s) | Some q \<Rightarrow> root (heap s ! q))
       \<and> parent (heap (snd (Group_init g par s)) ! length (heap s)) = par
       \<and> (i \<noteq> length (heap s) \<longrightarrow>
            (\<exists>p. parent (heap (snd (Group_init g par s)) ! i) = Some p
               \<and> length (heap s) \<le> p \<and> p < i
               \<and> root (heap (snd (Group_init g par s)) ! i)
                   = root (heap (snd (Group_init g par s)) ! p)))
       \<and> (\<forall>c \<in> set (groups (heap (snd (Group_init g par s)) ! i)).
             parent (heap (snd (Group_init g par s)) ! c) = Some i
             \<and> i < c \<and> c < length (heap s) + count_groups g)
       \<and> (par = None \<longrightarrow>
             top (Suc (i - length (heap s))) (heap (snd (Group_init g par s))) i
               = Some (length (heap s)))
       \<and> list_resources fuel (snd (Group_init g par s)) i nd
           = (case run_walker (resolve_walker (snd (Group_init g par s)) i nd) fuel
                     (snd (Group_init g par s)) nd of
                Inl e \<Rightarrow> Inl e
              | Inr None \<Rightarrow> Inr None
              | Inr (Some y) \<Rightarrow>
                  Inr (Some (match_yielded
                    (name (heap (snd (Group_init g par s))
                       ! (case par of None \<Rightarrow> length (heap s) | Some q \<Rightarrow> root (heap s ! q))))
                    (name (heap (snd (Group_init g par s)) ! i))
                    y)))"
proof -
  let ?h = "heap (snd (Group_init g par s))"
  let ?l = "length (heap s)"
  let ?r = "case par of None \<Rightarrow> ?l | Some q \<Rightarrow> root (heap s ! q)"
  have len: "length ?h = ?l + count_groups g" by (rule length_heap(1))
  have rt: "\<And>j. ?l \<le> j \<Longrightarrow> j < ?l + count_groups g \<Longrightarrow> root (?h ! j) = ?r"
    using assms(4) by (rule root_Group_init)
  have a: "root (?h ! i) = ?r" using assms(2,3) by (rule rt)
  have b: "i \<noteq> ?l \<longrightarrow> (\<exists>p. parent (?h ! i) = Some p \<and> ?l \<le> p \<and> p < i
      \<and> root (?h ! i) = root (?h ! p))"
  proof
    assume "i \<noteq> ?l"
    with assms(2) have "?l < i" by simp
    with assms(3) obtain p where p: "parent (?h ! i) = Some p" "?l \<le> p" "p < i"
      using parents(1)[of s i g par] by (auto simp: len)
    with assms(3) have "root (?h ! p) = ?r" by (intro rt) auto
    with a p show "\<exists>p. parent (?h ! i) = Some p \<and> ?l \<le> p \<and> p < i
      \<and> root (?h ! i) = root (?h ! p)" by simp
  qed
  have c: "\<forall>c \<in> set (groups (?h ! i)). parent (?h ! c) = Some i \<and> i < c
      \<and> c < ?l + count_groups g"
    using children(1)[of s i g par] assms(2,3) by (auto simp: len)
  have d: "par = None \<longrightarrow> top (Suc (i - ?l)) ?h i = Some ?l"
  proof
    assume "par = None"
    then have "parent (?h ! ?l) = None" by simp
    moreover have "\<And>j. ?l < j \<Longrightarrow> j < ?l + count_groups g \<Longrightarrow>
        \<exists>p. parent (?h ! j) = Some p \<and> ?l \<le> p \<and> p < j"
      using parents(1)[of s _ g par] by (simp add: len)
    ultimately show "top (Suc (i - ?l)) ?h i = Some ?l"
      using assms(2,3) by (intro top_reaches[where l' = "?l + count_groups g"]) auto
  qed
  have e: "list_resources fuel (snd (Group_init g par s)) i nd
      = (case run_walker (resolve_walker (snd (Group_init g par s)) i nd) fuel
                (snd (Group_init g par s)) nd of
           Inl e \<Rightarrow> Inl e
         | Inr None \<Rightarrow> Inr None
         | Inr (Some y) \<Rightarrow> Inr (Some (match_yielded (name (?h ! ?r)) (name (?h ! i)) y)))"
    by (simp only: list_resources.simps a)
  have f: "parent (?h ! ?l) = par" by simp
  from a b c d e f show ?thesis by (intro conjI) (rule fst_Group_init, assumption+)
qed

theorem group_tree_links_witness:
  "wf_grouping topics_tree
   \<and> length (heap empty_state) \<le> 2 \<and> 2 < length (heap empty_state) + count_groups topics_tree
   \<and> root (heap (snd (Group_init topics_tree None empty_state)) ! 2) = length (heap empty_state)
   \<and> top (Suc (2 - length (heap empty_state)))
        (heap (snd (Group_init topics_tree None empty_state))) 2
       = Some (length (heap empty_state))"
proof -
  have a: "length (heap empty_state) \<le> 2" by (simp add: empty_state_def)
  have b: "2 < length (heap empty_state) + count_groups topics_tree"
    by (simp add: empty_state_def topics_tree_def)
  have wf: "wf_grouping topics_tree" by (simp add: topics_tree_def)
  from group_tree_links[where par = None and nd = topics_node, OF wf a b] wf a b
  show ?thesis by simp
qed

subsection \<open>The injected traversals\<close>



text \<open>
  Claim C3. \<open>Group.walk_resources\<close> yields, for each group of \<open>walk_groups\<close> from the
  group it is bound to and in that order, the resources of \<open>list_resources\<close> of that
  group under the node, one group after the other, provided that \<open>list_resources\<close> of
  each of these groups ends without an error. For a constructed tree without an entry named
  after a method, the capability attached under \<open>walk_resources_grouped_by_<name>\<close>
  returns this concatenation over the whole pre-order sequence of the tree. A dynamic
  attribute \<open>walk_groups\<close> of the bound group, or \<open>list_resources\<close> of a walked
  group, makes the call raise \<open>TypeError\<close> (lines 60 and 61).
\<close>

theorem walk_resources_concat:
  "(wf_grouping g \<and> method_free g \<and> count_groups g \<le> fuel
      \<and> (\<forall>i. length (heap s) \<le> i \<and> i < length (heap s) + count_groups g \<longrightarrow>
            (\<exists>rs. list_resources fuel (snd (Group_init g par s)) i nd = Inr (Some rs)))
     \<longrightarrow> node_method_call (snd (Group_init g par s))
           (''walk_resources_grouped_by_'' @ group_name g) fuel nd
         = Inr (Some (Yield_resources
             (concat (map (\<lambda>i. yields (list_resources fuel (snd (Group_init g par s)) i nd))
                [length (heap s) ..< length (heap s) + count_groups g])))))
   \<and> (map_of (extra (heap t ! grp)) ''walk_groups'' = None
      \<and> walk_groups fuel (heap t) grp = Inr (Some gs)
      \<and> (\<forall>x \<in> set gs. map_of (extra (heap t ! x)) ''list_resources'' = None
            \<and> (\<exists>rs. list_resources fuel t x nd = Inr (Some rs)))
     \<longrightarrow> Group_walk_resources fuel t nd grp
         = Inr (Some (concat (map (\<lambda>x. yields (list_resources fuel t x nd)) gs))))
   \<and> (map_of (extra (heap t ! grp)) ''walk_groups'' = Some v
     \<longrightarrow> Group_walk_resources fuel t nd grp = Inl TypeError)
   \<and> (map_of (extra (heap t ! x)) ''list_resources'' = Some v
     \<longrightarrow> walk_resources_loop fuel t nd (x # xs) = Inl TypeError)"
proof (intro conjI impI)
  assume "map_of (extra (heap t ! grp)) ''walk_groups'' = Some v"
  then show "Group_walk_resources fuel t nd grp = Inl TypeError" by (simp add: shadowed_def)
next
  assume "map_of (extra (heap t ! x)) ''list_resources'' = Some v"
  then show "walk_resources_loop fuel t nd (x # xs) = Inl TypeError"
    by (simp add: shadowed_def)
next
  assume a: "map_of (extra (heap t ! grp)) ''walk_groups'' = None
      \<and> walk_groups fuel (heap t) grp = Inr (Some gs)
      \<and> (\<forall>x \<in> set gs. map_of (extra (heap t ! x)) ''list_resources'' = None
            \<and> (\<exists>rs. list_resources fuel t x nd = Inr (Some rs)))"
  then have "walk_resources_loop fuel t nd gs
       = Inr (Some (concat (map (\<lambda>x. yields (list_resources fuel t x nd)) gs)))"
    by (intro walk_resources_loop_concat) (simp_all add: shadowed_iff)
  with a show "Group_walk_resources fuel t nd grp
         = Inr (Some (concat (map (\<lambda>x. yields (list_resources fuel t x nd)) gs)))"
    by (simp add: shadowed_iff)
next
  let ?s = "snd (Group_init g par s)"
  let ?l = "length (heap s)"
  assume a: "wf_grouping g \<and> method_free g \<and> count_groups g \<le> fuel
      \<and> (\<forall>i. ?l \<le> i \<and> i < ?l + count_groups g \<longrightarrow>
            (\<exists>rs. list_resources fuel ?s i nd = Inr (Some rs)))"
  then have w: "walk_groups fuel (heap ?s) ?l = Inr (Some [?l ..< ?l + count_groups g])"
    by (intro walk_tree) simp_all
  from a have ns: "\<And>i. ?l \<le> i \<Longrightarrow> i < ?l + count_groups g \<Longrightarrow>
      \<not> shadowed (heap ?s) i ''walk_groups'' \<and> \<not> shadowed (heap ?s) i ''list_resources''"
    by (intro unshadowed_constructed) simp_all
  have "walk_resources_loop fuel ?s nd [?l ..< ?l + count_groups g]
       = Inr (Some (concat (map (\<lambda>x. yields (list_resources fuel ?s x nd))
           [?l ..< ?l + count_groups g])))"
    using a ns by (intro walk_resources_loop_concat) simp_all
  moreover have "\<not> shadowed (heap ?s) ?l ''walk_groups''" using ns[of ?l] by simp
  moreover have "node_method_call ?s (''walk_resources_grouped_by_'' @ group_name g) fuel nd
      = call (Walk_resources ?l) fuel ?s nd"
    by (simp only: node_method_call_def methods_self option.case)
  ultimately show "node_method_call ?s (''walk_resources_grouped_by_'' @ group_name g) fuel nd
         = Inr (Some (Yield_resources
             (concat (map (\<lambda>i. yields (list_resources fuel ?s i nd))
                [?l ..< ?l + count_groups g]))))"
    using w by simp
qed

theorem walk_resources_concat_witness:
  "wf_grouping topics_tree \<and> method_free topics_tree \<and> count_groups topics_tree \<le> 3
   \<and> list_resources 3 (snd (Group_init topics_tree None empty_state)) 0 topics_node = Inr (Some [])
   \<and> list_resources 3 (snd (Group_init topics_tree None empty_state)) 1 topics_node
       = Inr (Some [resource_a])
   \<and> list_resources 3 (snd (Group_init topics_tree None empty_state)) 2 topics_node
       = Inr (Some [resource_b])
   \<and> node_method_call (snd (Group_init topics_tree None empty_state))
        (''walk_resources_grouped_by_'' @ group_name topics_tree) 3 topics_node
       = Inr (Some (Yield_resources [resource_a, resource_b]))
   \<and> map_of (extra (heap (snd (Group_init shadowing_grouping None empty_state)) ! 0)) ''list_resources'' = Some ''all''
   \<and> walk_resources_loop 3 (snd (Group_init shadowing_grouping None empty_state)) topics_node (0 # [1]) = Inl TypeError
   \<and> map_of (extra (heap (snd (Group_init shadowing_grouping None empty_state)) ! 1)) ''walk_groups'' = Some ''none''
   \<and> Group_walk_resources 3 (snd (Group_init shadowing_grouping None empty_state)) topics_node 1 = Inl TypeError"
proof -
  have wf: "wf_grouping topics_tree" by (simp add: topics_tree_def)
  have mf: "method_free topics_tree" by (simp add: topics_tree_def)
  have le: "count_groups topics_tree \<le> 3" by (simp add: topics_tree_def)
  have l0: "list_resources 3 (snd (Group_init topics_tree None empty_state)) 0 topics_node = Inr (Some [])"
    by code_simp
  have l1: "list_resources 3 (snd (Group_init topics_tree None empty_state)) 1 topics_node
      = Inr (Some [resource_a])"
    by code_simp
  have l2: "list_resources 3 (snd (Group_init topics_tree None empty_state)) 2 topics_node
      = Inr (Some [resource_b])"
    by code_simp
  have every: "\<forall>i. length (heap empty_state) \<le> i
        \<and> i < length (heap empty_state) + count_groups topics_tree \<longrightarrow>
      (\<exists>rs. list_resources 3 (snd (Group_init topics_tree None empty_state)) i topics_node = Inr (Some rs))"
  proof (intro allI impI)
    fix i :: nat
    assume "length (heap empty_state) \<le> i
        \<and> i < length (heap empty_state) + count_groups topics_tree"
    then have "i < 3" by (simp add: empty_state_def topics_tree_def)
    then have "i = 0 \<or> i = 1 \<or> i = 2" by arith
    with l0 l1 l2
    show "\<exists>rs. list_resources 3 (snd (Group_init topics_tree None empty_state)) i topics_node = Inr (Some rs)"
      by auto
  qed
  have s0: "map_of (extra (heap (snd (Group_init shadowing_grouping None empty_state)) ! 0)) ''list_resources'' = Some ''all''"
    by code_simp
  have s1: "map_of (extra (heap (snd (Group_init shadowing_grouping None empty_state)) ! 1)) ''walk_groups'' = Some ''none''"
    by code_simp
  have ev: "concat (map (\<lambda>i. yields (list_resources 3 (snd (Group_init topics_tree None empty_state)) i topics_node))
       [length (heap empty_state) ..< length (heap empty_state) + count_groups topics_tree])
     = [resource_a, resource_b]"
    by code_simp
  from walk_resources_concat[where g = topics_tree and par = None
      and s = empty_state and nd = topics_node and fuel = 3] wf mf le every
  have 1: "node_method_call (snd (Group_init topics_tree None empty_state))
        (''walk_resources_grouped_by_'' @ group_name topics_tree) 3 topics_node
       = Inr (Some (Yield_resources [resource_a, resource_b]))"
    unfolding ev by blast
  from walk_resources_concat[where t = "(snd (Group_init shadowing_grouping None empty_state))" and x = 0 and v = "''all''"
      and fuel = 3 and nd = topics_node and xs = "[1]"] s0
  have 2: "walk_resources_loop 3 (snd (Group_init shadowing_grouping None empty_state)) topics_node (0 # [1]) = Inl TypeError"
    by blast
  from walk_resources_concat[where t = "(snd (Group_init shadowing_grouping None empty_state))" and grp = 1 and v = "''none''"
      and fuel = 3 and nd = topics_node] s1
  have 3: "Group_walk_resources 3 (snd (Group_init shadowing_grouping None empty_state)) topics_node 1 = Inl TypeError"
    by blast
  from wf mf le l0 l1 l2 1 s0 2 s1 3 show ?thesis by (intro conjI)
qed

lemma registrations_bound:
  "(k, c) \<in> set (registrations g a) \<Longrightarrow> a \<le> bound_group c \<and> bound_group c < a + count_groups g"
  "(k, c) \<in> set (registrations_items d a) \<Longrightarrow>
     a \<le> bound_group c \<and> bound_group c < a + sum_list (map count_item d)"
  "(k, c) \<in> set (registrations_item kv a) \<Longrightarrow>
     a \<le> bound_group c \<and> bound_group c < a + count_item kv"
  "(k, c) \<in> set (registrations_list val a) \<Longrightarrow>
     a \<le> bound_group c \<and> bound_group c < a + sum_list (map count_groups val)"
proof (induction g a and d a and kv a and val a
    rule: registrations_registrations_items_registrations_item_registrations_list.induct)
  case (1 d a)
  then show ?case by fastforce
next
  case (3 kv d a)
  then show ?case by fastforce
next
  case (7 g val a)
  then show ?case by fastforce
qed simp_all

lemma registrations_names:
  "(k, c) \<in> set (registrations g (length (heap s))) \<Longrightarrow>
     k = method_name c (name (heap (snd (Group_init g par s)) ! bound_group c))"
  "self < length (heap s) \<Longrightarrow> (k, c) \<in> set (registrations_items d (length (heap s))) \<Longrightarrow>
     k = method_name c (name (heap (Expando_update d self s) ! bound_group c))"
  "self < length (heap s) \<Longrightarrow> (k, c) \<in> set (registrations_item kv (length (heap s))) \<Longrightarrow>
     k = method_name c (name (heap (set_expando kv self s) ! bound_group c))"
  "self < length (heap s) \<Longrightarrow> (k, c) \<in> set (registrations_list val (length (heap s))) \<Longrightarrow>
     k = method_name c (name (heap (snd (make_groups val self s)) ! bound_group c))"
proof (induction g par s and d self s and kv self s and val self s
    rule: Group_init_Expando_update_set_expando_make_groups.induct)
  case (1 d par s)
  let ?l = "length (heap s)"
  from 1(2) consider "(k, c) \<in> set (registrations_items d (Suc ?l))"
    | "k = ''walk_'' @ name_after d ''groups'' @ ''_groups''" "c = Walk_groups_in_node ?l"
    | "k = ''walk_resources_grouped_by_'' @ name_after d ''groups''" "c = Walk_resources ?l"
    by auto
  then show ?case
  proof cases
    case 1
    with "1.IH"[of] show ?thesis by simp
  next
    case 2
    then show ?thesis by (simp add: name_Group_init)
  next
    case 3
    then show ?thesis by (simp add: name_Group_init)
  qed
next
  case (3 kv d self s)
  let ?s1 = "set_expando kv self s"
  have l1: "length (heap ?s1) = length (heap s) + count_item kv" by (rule length_heap(3))
  with 3(3) have self1: "self < length (heap ?s1)" by simp
  from 3(4) consider "(k, c) \<in> set (registrations_item kv (length (heap s)))"
    | "(k, c) \<in> set (registrations_items d (length (heap ?s1)))"
    by (auto simp: l1)
  then show ?case
  proof cases
    case 1
    from registrations_bound(3)[OF 1] 3(3) l1
    have "bound_group c < length (heap ?s1)" "bound_group c \<noteq> self" by auto
    then have "heap (Expando_update d self ?s1) ! bound_group c = heap ?s1 ! bound_group c"
      by (simp add: frame)
    with 3(1)[OF 3(3) 1] show ?thesis by simp
  next
    case 2
    from 3(2)[OF self1 2] show ?thesis by simp
  qed
next
  case (4 val self s)
  from registrations_bound(4)[of k c val "length (heap s)"] 4(2,3)
  have "bound_group c \<noteq> self" by auto
  with 4(1)[OF 4(2)] 4(3) show ?case by simp
next
  case (9 grp val self s)
  let ?s1 = "snd (Group_init grp (Some self) s)"
  have l1: "length (heap ?s1) = length (heap s) + count_groups grp" by (rule length_heap(1))
  with 9(3) have self1: "self < length (heap ?s1)" by simp
  from 9(4) consider "(k, c) \<in> set (registrations grp (length (heap s)))"
    | "(k, c) \<in> set (registrations_list val (length (heap ?s1)))"
    by (auto simp: l1)
  then show ?case
  proof cases
    case 1
    from registrations_bound(1)[OF 1] l1
    have "bound_group c < length (heap ?s1)" by auto
    then have "heap (snd (make_groups val self ?s1)) ! bound_group c = heap ?s1 ! bound_group c"
      by (simp add: frame)
    with 9(1)[OF 1] show ?thesis by simp
  next
    case 2
    from 9(2)[OF prod.collapse self1 2] show ?thesis by simp
  qed
qed simp_all

text \<open>
  Claim C10. The construction of a group attaches capabilities for every group of its
  tree: the methods of \<open>Node\<close> afterwards are the earlier ones overwritten, in order, by
  the registrations of the tree. Every registration is bound to a group that the
  construction has created and stands under the method name built from the name of that
  group, \<open>walk_<n>_groups\<close> or \<open>walk_resources_grouped_by_<n>\<close>; the two
  registrations of the constructed group itself come last, after those of all its nested
  groups; and so the two method names of the constructed group are bound to it afterwards,
  whatever was attached under these names before.
\<close>

theorem capabilities_attached:
  assumes "wf_grouping g"
  shows "node_methods (snd (Group_init g par s))
     = node_methods s ++ map_of (rev (registrations g (length (heap s))))
   \<and> (\<forall>(k, c) \<in> set (registrations g (length (heap s))).
        length (heap s) \<le> bound_group c \<and> bound_group c < length (heap s) + count_groups g
        \<and> k = (case c of
                 Walk_groups_in_node a \<Rightarrow>
                   ''walk_'' @ name (heap (snd (Group_init g par s)) ! a) @ ''_groups''
               | Walk_resources a \<Rightarrow>
                   ''walk_resources_grouped_by_'' @ name (heap (snd (Group_init g par s)) ! a)))
   \<and> (\<exists>before. registrations g (length (heap s))
          = before @ [(''walk_'' @ group_name g @ ''_groups'', Walk_groups_in_node (length (heap s))),
                      (''walk_resources_grouped_by_'' @ group_name g, Walk_resources (length (heap s)))]
        \<and> (\<forall>(k, c) \<in> set before. length (heap s) < bound_group c))
   \<and> node_methods (snd (Group_init g par s)) (''walk_'' @ group_name g @ ''_groups'')
       = Some (Walk_groups_in_node (length (heap s)))
   \<and> node_methods (snd (Group_init g par s)) (''walk_resources_grouped_by_'' @ group_name g)
       = Some (Walk_resources (length (heap s)))"
proof (intro conjI)
  show "node_methods (snd (Group_init g par s))
     = node_methods s ++ map_of (rev (registrations g (length (heap s))))"
    by (rule methods_constructed(1))
  show "\<forall>(k, c) \<in> set (registrations g (length (heap s))).
        length (heap s) \<le> bound_group c \<and> bound_group c < length (heap s) + count_groups g
        \<and> k = (case c of
                 Walk_groups_in_node a \<Rightarrow>
                   ''walk_'' @ name (heap (snd (Group_init g par s)) ! a) @ ''_groups''
               | Walk_resources a \<Rightarrow>
                   ''walk_resources_grouped_by_'' @ name (heap (snd (Group_init g par s)) ! a))"
  proof (intro ballI, clarify)
    fix k c assume kc: "(k, c) \<in> set (registrations g (length (heap s)))"
    from registrations_names(1)[OF kc, of par]
    have "k = (case c of
                 Walk_groups_in_node a \<Rightarrow>
                   ''walk_'' @ name (heap (snd (Group_init g par s)) ! a) @ ''_groups''
               | Walk_resources a \<Rightarrow>
                   ''walk_resources_grouped_by_'' @ name (heap (snd (Group_init g par s)) ! a))"
      by (cases c) simp_all
    with registrations_bound(1)[OF kc]
    show "length (heap s) \<le> bound_group c \<and> bound_group c < length (heap s) + count_groups g
        \<and> k = (case c of
                 Walk_groups_in_node a \<Rightarrow>
                   ''walk_'' @ name (heap (snd (Group_init g par s)) ! a) @ ''_groups''
               | Walk_resources a \<Rightarrow>
                   ''walk_resources_grouped_by_'' @ name (heap (snd (Group_init g par s)) ! a))"
      by simp
  qed
  show "\<exists>before. registrations g (length (heap s))
          = before @ [(''walk_'' @ group_name g @ ''_groups'', Walk_groups_in_node (length (heap s))),
                      (''walk_resources_grouped_by_'' @ group_name g, Walk_resources (length (heap s)))]
        \<and> (\<forall>(k, c) \<in> set before. length (heap s) < bound_group c)"
  proof (cases g)
    case (Grouping d)
    have "\<forall>(k, c) \<in> set (registrations_items d (Suc (length (heap s)))).
        length (heap s) < bound_group c"
      using registrations_bound(2)[of _ _ d "Suc (length (heap s))"] by fastforce
    with Grouping show ?thesis by (simp add: group_name_def)
  qed
qed (rule methods_self)+

theorem capabilities_attached_witness:
  "wf_grouping topics_tree
   \<and> (''walk_a_groups'', Walk_groups_in_node 1)
     \<in> set (registrations topics_tree (length (heap empty_state)))
   \<and> ''walk_a_groups''
       = ''walk_'' @ name (heap (snd (Group_init topics_tree None empty_state)) ! 1) @ ''_groups''
   \<and> node_methods (snd (Group_init topics_tree None empty_state)) ''walk_topics_groups''
       = Some (Walk_groups_in_node 0)
   \<and> node_methods (snd (Group_init topics_tree None empty_state))
         ''walk_resources_grouped_by_topics''
       = Some (Walk_resources 0)"
proof -
  have r: "(''walk_a_groups'', Walk_groups_in_node 1)
     \<in> set (registrations topics_tree (length (heap empty_state)))"
    by (simp add: topics_tree_def empty_state_def)
  have wf: "wf_grouping topics_tree" by (simp add: topics_tree_def)
  have n: "group_name topics_tree = ''topics''" by (simp add: topics_tree_def group_name_def)
  note inst = capabilities_attached[OF wf, of None empty_state]
  from inst r
  have "''walk_a_groups''
       = (case Walk_groups_in_node 1 of
            Walk_groups_in_node a \<Rightarrow>
              ''walk_'' @ name (heap (snd (Group_init topics_tree None empty_state)) ! a)
                @ ''_groups''
          | Walk_resources a \<Rightarrow>
              ''walk_resources_grouped_by_''
                @ name (heap (snd (Group_init topics_tree None empty_state)) ! a))"
    by blast
  then have 1: "''walk_a_groups''
       = ''walk_'' @ name (heap (snd (Group_init topics_tree None empty_state)) ! 1) @ ''_groups''"
    by (simp only: capability.case)
  from inst have 2: "node_methods (snd (Group_init topics_tree None empty_state))
         (''walk_'' @ group_name topics_tree @ ''_groups'')
       = Some (Walk_groups_in_node (length (heap empty_state)))"
    and 3: "node_methods (snd (Group_init topics_tree None empty_state))
         (''walk_resources_grouped_by_'' @ group_name topics_tree)
       = Some (Walk_resources (length (heap empty_state)))"
    by blast+
  have m2: "node_methods (snd (Group_init topics_tree None empty_state)) ''walk_topics_groups''
       = Some (Walk_groups_in_node 0)"
    using 2 unfolding n by (simp add: empty_state_def)
  have m3: "node_methods (snd (Group_init topics_tree None empty_state))
         ''walk_resources_grouped_by_topics''
       = Some (Walk_resources 0)"
    using 3 unfolding n by (simp add: empty_state_def)
  from wf r 1 m2 m3 show ?thesis by (intro conjI)
qed

subsection \<open>Sorter resolution\<close>

text \<open>
  What the construction does: a group gets the sorter of its own specification when that
  has one, and otherwise the sorter that its parent has at the moment of the construction.
\<close>

lemma sorter_set_expando:
  "self < length (heap s) \<Longrightarrow>
     sorter (heap (set_expando kv self s) ! self) = sorter_after [kv] (sorter (heap s ! self))"
  by (cases kv) (simp_all add: length_heap frame)

lemma sorter_Expando_update:
  "self < length (heap s) \<Longrightarrow>
     sorter (heap (Expando_update d self s) ! self) = sorter_after d (sorter (heap s ! self))"
proof (induction d arbitrary: s)
  case (Cons kv d)
  then have "self < length (heap (set_expando kv self s))" by (simp add: length_heap)
  from Cons(1)[OF this] sorter_set_expando[OF Cons(2), of kv] show ?case
    by (cases kv) simp_all
qed simp

lemma sorter_after_getattr:
  "distinct (map key d) \<Longrightarrow> (\<forall>kv \<in> set d. wf_item kv) \<Longrightarrow>
     sorter_after d x = (case getattr_sorter d of Some v \<Rightarrow> Some v | None \<Rightarrow> x)"
proof (induction d arbitrary: x)
  case (Cons kv d)
  show ?case
  proof (cases kv)
    case (Sorter v)
    with Cons(2) have "''sorter'' \<notin> key ` set d" by simp
    then have "getattr_sorter d = None"
      by (induction d rule: getattr_sorter.induct) auto
    with Cons Sorter show ?thesis by simp
  qed (use Cons in simp_all)
qed simp

lemma sorter_new_group [simp]:
  "sorter (heap (new_group d par s) ! length (heap s))
     = (case par of None \<Rightarrow> getattr_sorter d | Some p \<Rightarrow> sorter (heap s ! p))"
  by (simp add: new_group_def Let_def split: option.splits)

lemma sorter_Group_init:
  assumes "wf_grouping (Grouping d)"
  shows "sorter (heap (snd (Group_init (Grouping d) par s)) ! length (heap s))
     = (case getattr_sorter d of
          Some v \<Rightarrow> Some v
        | None \<Rightarrow> (case par of None \<Rightarrow> None | Some p \<Rightarrow> sorter (heap s ! p)))"
proof -
  have "length (heap s) < length (heap (new_group d par s))" by simp
  from sorter_Expando_update[OF this, of d] assms show ?thesis
    by (simp add: sorter_after_getattr split: option.splits)
qed

text \<open>
  Claim C5. The claim is that a group without a sorter of its own gets the sorter of its
  nearest ancestor that has one. In \<open>nested_sorter_grouping\<close> the group \<open>b\<close> has no
  sorter and its parent \<open>a\<close> specifies \<open>s2\<close>; the construction leaves \<open>a\<close> with
  \<open>s2\<close> but \<open>b\<close> with \<open>s1\<close>, the sorter of the root, because \<open>b\<close> is constructed
  when the \<open>groups\<close> entry of \<open>a\<close> is copied, before the \<open>sorter\<close> entry of \<open>a\<close>.
\<close>

theorem nested_sorter_inheritance:
  "map name (heap (snd (Group_init nested_sorter_grouping None empty_state)))
     = [''topics'', ''a'', ''b'']
   \<and> map parent (heap (snd (Group_init nested_sorter_grouping None empty_state)))
     = [None, Some 0, Some 1]
   \<and> map sorter (heap (snd (Group_init nested_sorter_grouping None empty_state)))
     = [Some ''s1'', Some ''s2'', Some ''s1'']"
  by code_simp

subsection \<open>The plugin\<close>

lemma name_after_replace: "has_name d \<Longrightarrow> name_after (replace_name n d) m = n"
proof (induction d arbitrary: m)
  case (Cons kv d)
  then show ?case
  proof (cases kv)
    case (Name v)
    then show ?thesis
    proof (cases "has_name d")
      case True
      with Cons Name show ?thesis by simp
    next
      case False
      have "\<And>m. name_after (replace_name n d) m = m"
        using False by (induction d) (auto elim: has_name.elims)
      with Name show ?thesis by simp
    qed
  qed (use Cons in simp_all)
qed simp

lemma name_after_no_name: "\<not> has_name d \<Longrightarrow> name_after d m = m"
  by (induction d arbitrary: m rule: has_name.induct) simp_all

lemma group_name_set_name [simp]: "group_name (set_name n g) = n"
  by (simp add: group_name_def set_name_def name_after_replace name_after_no_name)

lemma begin_site_loop_step:
  "begin_site_loop (x # rest) site =
     begin_site_loop rest
       (site\<lparr>config_grouper :=
          map_option (AList.update (fst x) (set_name (fst x) (snd x))) (config_grouper site),
          runtime := snd (Group_init (set_name (fst x) (snd x)) None (runtime site)),
          grouper := map_option
            (\<lambda>reg. reg(fst x \<mapsto> fst (Group_init (set_name (fst x) (snd x)) None (runtime site))))
            (grouper site)\<rparr>)"
  by (cases x) (simp add: Let_def)

declare begin_site_loop.simps(2) [simp del]

lemma begin_site_loop_append:
  "begin_site_loop (xs @ ys) site = begin_site_loop ys (begin_site_loop xs site)"
  by (induction xs arbitrary: site) (simp_all add: begin_site_loop_step)

lemma grouper_loop_other:
  "k \<notin> fst ` set xs \<Longrightarrow>
     map_option (\<lambda>reg. reg k) (grouper (begin_site_loop xs site))
       = map_option (\<lambda>reg. reg k) (grouper site)"
proof (induction xs arbitrary: site)
  case (Cons x xs)
  from Cons(2) have "k \<noteq> fst x" "k \<notin> fst ` set xs" by auto
  with Cons(1) show ?case
    by (simp add: begin_site_loop_step option.map_comp comp_def del: fst_Group_init)
qed simp

lemma grouper_loop_None:
  "grouper (begin_site_loop xs site) = None \<longleftrightarrow> grouper site = None"
  by (induction xs arbitrary: site) (simp_all add: begin_site_loop_step)

lemma heap_loop:
  "length (heap (runtime site)) \<le> length (heap (runtime (begin_site_loop xs site)))
   \<and> (i < length (heap (runtime site)) \<longrightarrow>
        heap (runtime (begin_site_loop xs site)) ! i = heap (runtime site) ! i)"
proof (induction xs arbitrary: site)
  case (Cons x xs)
  let ?r = "Group_init (set_name (fst x) (snd x)) None (runtime site)"
  let ?site1 = "site\<lparr>config_grouper :=
      map_option (AList.update (fst x) (set_name (fst x) (snd x))) (config_grouper site),
      runtime := snd ?r, grouper := map_option (\<lambda>reg. reg(fst x \<mapsto> fst ?r)) (grouper site)\<rparr>"
  have step: "begin_site_loop (x # xs) site = begin_site_loop xs ?site1"
    by (rule begin_site_loop_step)
  have rt: "runtime ?site1 = snd ?r" by simp
  have len: "length (heap (snd ?r)) = length (heap (runtime site))
      + count_groups (set_name (fst x) (snd x))"
    by (rule length_heap(1))
  have fr: "i < length (heap (runtime site)) \<Longrightarrow> heap (snd ?r) ! i = heap (runtime site) ! i"
    by (rule frame(1))
  from Cons[of ?site1] len fr show ?case
    unfolding step rt by auto
qed simp

lemma update_append_fresh:
  "k \<notin> fst ` set xs \<Longrightarrow> AList.update k v (xs @ (k, w) # ys) = xs @ (k, v) # ys"
  by (induction xs) auto

lemma config_loop:
  "config_grouper site = Some (done @ xs) \<Longrightarrow> distinct (map fst (done @ xs)) \<Longrightarrow>
     config_grouper (begin_site_loop xs site)
       = Some (done @ map (\<lambda>(k, spec). (k, set_name k spec)) xs)"
proof (induction xs arbitrary: site "done")
  case (Cons x xs)
  obtain nm grouping where x: "x = (nm, grouping)" by (cases x)
  let ?r = "Group_init (set_name nm grouping) None (runtime site)"
  let ?site1 = "site\<lparr>config_grouper :=
      map_option (AList.update nm (set_name nm grouping)) (config_grouper site),
      runtime := snd ?r, grouper := map_option (\<lambda>reg. reg(nm \<mapsto> fst ?r)) (grouper site)\<rparr>"
  have step: "begin_site_loop (x # xs) site = begin_site_loop xs ?site1"
    unfolding x by (simp only: begin_site_loop_step fst_conv snd_conv)
  from Cons(3) x have fresh: "nm \<notin> fst ` set done" by auto
  have "config_grouper ?site1
      = Some (AList.update nm (set_name nm grouping) (done @ (nm, grouping) # xs))"
    using Cons(2) x by simp
  then have "config_grouper ?site1 = Some ((done @ [(nm, set_name nm grouping)]) @ xs)"
    using update_append_fresh[OF fresh, of "set_name nm grouping" grouping xs] by simp
  moreover have "distinct (map fst ((done @ [(nm, set_name nm grouping)]) @ xs))"
    using Cons(3) x by simp
  ultimately have "config_grouper (begin_site_loop xs ?site1)
      = Some ((done @ [(nm, set_name nm grouping)]) @ map (\<lambda>(k, spec). (k, set_name k spec)) xs)"
    by (rule Cons(1))
  then show ?case unfolding step by (simp add: x)
qed simp

lemma name_self:
  "name (heap (snd (Group_init g par s)) ! length (heap s)) = group_name g"
  by (cases g) (simp add: name_Group_init group_name_def)

lemma config_create_registry [simp]: "config_grouper (create_registry site) = config_grouper site"
  by (simp add: create_registry_def split: option.splits)

lemma runtime_create_registry [simp]: "runtime (create_registry site) = runtime site"
  by (simp add: create_registry_def split: option.splits)

lemma grouper_create_registry:
  "grouper (create_registry site)
     = Some (case grouper site of None \<Rightarrow> Map.empty | Some reg \<Rightarrow> reg)"
  by (simp add: create_registry_def split: option.splits)

lemma unnamed_replace_name: "unnamed (replace_name n d) = unnamed d"
  by (induction n d rule: replace_name.induct) simp_all

lemma unnamed_set_name: "unnamed (items (set_name n g)) = unnamed (items g)"
  by (simp add: set_name_def unnamed_replace_name)

lemma count_replace_name:
  "sum_list (map count_item (replace_name n d)) = sum_list (map count_item d)"
  by (induction n d rule: replace_name.induct) simp_all

lemma count_groups_set_name: "count_groups (set_name n g) = count_groups g"
  by (cases g) (simp add: set_name_def count_replace_name)

lemma item_names_replace_name:
  "concat (map item_names (replace_name n d)) = concat (map item_names d)"
  by (induction n d rule: replace_name.induct) simp_all

lemma names_set_name: "names (set_name n g) = n # tl (names g)"
proof (cases g)
  case (Grouping d)
  then show ?thesis
    by (simp add: set_name_def item_names_replace_name name_after_replace name_after_no_name)
qed

text \<open>
  Claim C7. \<open>begin_site\<close> leaves the site as it is when the configuration has no grouper
  section. Otherwise the site has a registry afterwards, which agrees with the earlier
  registry (the empty one when there was none) on every key that is not configured; for
  every configured entry it holds, under the key, the root group that \<open>Group\<close> has
  constructed from the specification with its name set to the key, at the moment when the
  earlier entries were done, and that group and its tree are in the store as constructed:
  the group has the key as its name and no parent, and its tree has the names of the
  configured sub-groups in pre-order. Setting the name of a specification changes no other
  entry of it, and every specification of the configuration has its name set to its key.
\<close>

theorem begin_site_registry:
  "(config_grouper site = None \<longrightarrow> begin_site site = site)
   \<and> (config_grouper site = Some config \<and> distinct (map fst config)
        \<and> (\<forall>spec \<in> snd ` set config. wf_grouping spec) \<longrightarrow>
        (\<exists>reg. grouper (begin_site site) = Some reg
           \<and> (\<forall>k. k \<notin> fst ` set config \<longrightarrow>
                 reg k = (case grouper site of None \<Rightarrow> None | Some old \<Rightarrow> old k))
           \<and> (\<forall>j < length config.
                 reg (fst (config ! j))
                   = Some (fst (Group_init (set_name (fst (config ! j)) (snd (config ! j))) None
                       (runtime (begin_site_loop (take j config) (create_registry site)))))
                 \<and> (\<forall>i < length (heap (snd (Group_init
                        (set_name (fst (config ! j)) (snd (config ! j))) None
                        (runtime (begin_site_loop (take j config) (create_registry site)))))).
                       heap (runtime (begin_site site)) ! i
                         = heap (snd (Group_init
                             (set_name (fst (config ! j)) (snd (config ! j))) None
                             (runtime (begin_site_loop (take j config) (create_registry site)))))
                           ! i)
                 \<and> (\<exists>g. reg (fst (config ! j)) = Some g
                       \<and> g < length (heap (runtime (begin_site site)))
                       \<and> name (heap (runtime (begin_site site)) ! g) = fst (config ! j)
                       \<and> parent (heap (runtime (begin_site site)) ! g) = None
                       \<and> root (heap (runtime (begin_site site)) ! g) = g
                       \<and> map (\<lambda>i. name (heap (runtime (begin_site site)) ! i))
                            [g ..< g + count_groups (snd (config ! j))]
                           = fst (config ! j) # tl (names (snd (config ! j))))
                 \<and> group_name (set_name (fst (config ! j)) (snd (config ! j))) = fst (config ! j)
                 \<and> unnamed (items (set_name (fst (config ! j)) (snd (config ! j))))
                     = unnamed (items (snd (config ! j)))))
        \<and> config_grouper (begin_site site)
            = Some (map (\<lambda>(k, spec). (k, set_name k spec)) config))"
proof (intro conjI impI)
  assume "config_grouper site = None"
  then show "begin_site site = site" by (simp add: begin_site_def)
next
  assume a: "config_grouper site = Some config \<and> distinct (map fst config)
        \<and> (\<forall>spec \<in> snd ` set config. wf_grouping spec)"
  let ?site0 = "create_registry site"
  let ?fin = "begin_site site"
  from a have bs: "?fin = begin_site_loop config ?site0"
    by (simp add: begin_site_def)
  from a show "config_grouper ?fin = Some (map (\<lambda>(k, spec). (k, set_name k spec)) config)"
    unfolding bs using config_loop[of ?site0 "[]" config] by simp
  have "grouper ?fin \<noteq> None"
    unfolding bs by (simp add: grouper_loop_None grouper_create_registry)
  then obtain reg where reg: "grouper ?fin = Some reg" by auto
  have other: "\<forall>k. k \<notin> fst ` set config \<longrightarrow>
      reg k = (case grouper site of None \<Rightarrow> None | Some old \<Rightarrow> old k)"
  proof (intro allI impI)
    fix k assume "k \<notin> fst ` set config"
    from grouper_loop_other[OF this, of ?site0] reg
    show "reg k = (case grouper site of None \<Rightarrow> None | Some old \<Rightarrow> old k)"
      unfolding bs by (simp add: grouper_create_registry split: option.splits)
  qed
  have each: "\<forall>j < length config.
      reg (fst (config ! j))
        = Some (fst (Group_init (set_name (fst (config ! j)) (snd (config ! j))) None
            (runtime (begin_site_loop (take j config) ?site0))))
      \<and> (\<forall>i < length (heap (snd (Group_init
             (set_name (fst (config ! j)) (snd (config ! j))) None
             (runtime (begin_site_loop (take j config) ?site0))))).
            heap (runtime ?fin) ! i
              = heap (snd (Group_init
                  (set_name (fst (config ! j)) (snd (config ! j))) None
                  (runtime (begin_site_loop (take j config) ?site0))))
                ! i)
      \<and> (\<exists>g. reg (fst (config ! j)) = Some g
            \<and> g < length (heap (runtime ?fin))
            \<and> name (heap (runtime ?fin) ! g) = fst (config ! j)
            \<and> parent (heap (runtime ?fin) ! g) = None
            \<and> root (heap (runtime ?fin) ! g) = g
            \<and> map (\<lambda>i. name (heap (runtime ?fin) ! i))
                 [g ..< g + count_groups (snd (config ! j))]
                = fst (config ! j) # tl (names (snd (config ! j))))
      \<and> group_name (set_name (fst (config ! j)) (snd (config ! j))) = fst (config ! j)
      \<and> unnamed (items (set_name (fst (config ! j)) (snd (config ! j))))
          = unnamed (items (snd (config ! j)))"
  proof (intro allI impI)
    fix j assume j: "j < length config"
    let ?k = "fst (config ! j)" and ?spec = "snd (config ! j)"
    let ?before = "begin_site_loop (take j config) ?site0"
    let ?r = "Group_init (set_name ?k ?spec) None (runtime ?before)"
    let ?site1 = "?before\<lparr>config_grouper :=
        map_option (AList.update ?k (set_name ?k ?spec)) (config_grouper ?before),
        runtime := snd ?r, grouper := map_option (\<lambda>reg. reg(?k \<mapsto> fst ?r)) (grouper ?before)\<rparr>"
    let ?rest = "drop (Suc j) config"
    from j have split: "config = take j config @ config ! j # ?rest"
      by (simp add: id_take_nth_drop)
    then have "?fin = begin_site_loop (config ! j # ?rest) ?before"
      unfolding bs
      using begin_site_loop_append[of "take j config" "config ! j # ?rest" ?site0]
      by simp
    then have fin: "?fin = begin_site_loop ?rest ?site1"
      by (simp only: begin_site_loop_step)
    from a have "distinct (map fst config)" by simp
    then have "distinct (map fst (take j config @ config ! j # ?rest))"
      using split by simp
    then have fresh: "?k \<notin> fst ` set ?rest" by simp
    have "grouper ?before \<noteq> None"
      by (simp add: grouper_loop_None grouper_create_registry)
    then obtain regb where regb: "grouper ?before = Some regb" by auto
    have g1: "grouper ?site1 = Some (regb(?k \<mapsto> fst ?r))"
      by (simp add: regb del: fst_Group_init)
    have "map_option (\<lambda>reg. reg ?k) (grouper (begin_site_loop ?rest ?site1))
        = map_option (\<lambda>reg. reg ?k) (grouper ?site1)"
      using fresh by (rule grouper_loop_other)
    then have "map_option (\<lambda>reg. reg ?k) (Some reg)
        = map_option (\<lambda>reg. reg ?k) (Some (regb(?k \<mapsto> fst ?r)))"
      unfolding fin[symmetric] reg g1 .
    then have r1: "reg ?k = Some (fst ?r)" by (simp del: fst_Group_init)
    have rt1: "runtime ?site1 = snd ?r" by simp
    have r2: "\<forall>i < length (heap (snd ?r)). heap (runtime ?fin) ! i = heap (snd ?r) ! i"
      unfolding fin using heap_loop[of ?site1 ?rest] unfolding rt1 by blast
    have lt: "fst ?r < length (heap (snd ?r))"
      by (simp add: length_heap)
    have le: "length (heap (snd ?r)) \<le> length (heap (runtime ?fin))"
      unfolding fin using heap_loop[of ?site1 ?rest 0] unfolding rt1 by blast
    have eq: "heap (runtime ?fin) ! fst ?r = heap (snd ?r) ! fst ?r"
      using r2 lt by blast
    have nm: "name (heap (snd ?r) ! fst ?r) = ?k"
      using name_self[of "set_name ?k ?spec" None "runtime ?before"] by simp
    have pa: "parent (heap (snd ?r) ! fst ?r) = None" by simp
    have ro: "root (heap (snd ?r) ! fst ?r) = fst ?r"
      using root_Group_init[of None "runtime ?before" "length (heap (runtime ?before))"
          "set_name ?k ?spec"] by simp
    from lt le have "fst ?r < length (heap (runtime ?fin))" by (rule less_le_trans)
    moreover note r1 nm pa ro
    moreover have nms: "map (\<lambda>i. name (heap (runtime ?fin) ! i))
        [fst ?r ..< fst ?r + count_groups ?spec] = ?k # tl (names ?spec)"
    proof -
      have len: "length (heap (snd ?r)) = length (heap (runtime ?before)) + count_groups ?spec"
        using length_heap(1)[of "set_name ?k ?spec" None "runtime ?before"]
        by (simp only: count_groups_set_name)
      have "map (\<lambda>i. name (heap (runtime ?fin) ! i))
          [length (heap (runtime ?before)) ..< length (heap (snd ?r))]
        = map (\<lambda>i. name (heap (snd ?r) ! i))
          [length (heap (runtime ?before)) ..< length (heap (snd ?r))]"
        using r2 by (intro map_cong refl) simp
      also have "\<dots> = names (set_name ?k ?spec)"
        by (rule names_constructed(1))
      finally show ?thesis unfolding len by (simp add: names_set_name)
    qed
    ultimately
    have ex: "\<exists>g. reg ?k = Some g \<and> g < length (heap (runtime ?fin))
            \<and> name (heap (runtime ?fin) ! g) = ?k
            \<and> parent (heap (runtime ?fin) ! g) = None
            \<and> root (heap (runtime ?fin) ! g) = g
            \<and> map (\<lambda>i. name (heap (runtime ?fin) ! i)) [g ..< g + count_groups ?spec]
                = ?k # tl (names ?spec)"
      using r1 nm pa ro unfolding eq[symmetric] by (intro exI[of _ "fst ?r"] conjI)
    have gn: "group_name (set_name ?k ?spec) = ?k" by (rule group_name_set_name)
    have un: "unnamed (items (set_name ?k ?spec)) = unnamed (items ?spec)"
      by (rule unnamed_set_name)
    show "reg ?k = Some (fst ?r)
      \<and> (\<forall>i < length (heap (snd ?r)). heap (runtime ?fin) ! i = heap (snd ?r) ! i)
      \<and> (\<exists>g. reg ?k = Some g \<and> g < length (heap (runtime ?fin))
            \<and> name (heap (runtime ?fin) ! g) = ?k
            \<and> parent (heap (runtime ?fin) ! g) = None
            \<and> root (heap (runtime ?fin) ! g) = g
            \<and> map (\<lambda>i. name (heap (runtime ?fin) ! i)) [g ..< g + count_groups ?spec]
                = ?k # tl (names ?spec))
      \<and> group_name (set_name ?k ?spec) = ?k
      \<and> unnamed (items (set_name ?k ?spec)) = unnamed (items ?spec)"
      using r1 r2 ex gn un by (intro conjI)
  qed
  show "\<exists>reg. grouper ?fin = Some reg
           \<and> (\<forall>k. k \<notin> fst ` set config \<longrightarrow>
                 reg k = (case grouper site of None \<Rightarrow> None | Some old \<Rightarrow> old k))
           \<and> (\<forall>j < length config.
                 reg (fst (config ! j))
                   = Some (fst (Group_init (set_name (fst (config ! j)) (snd (config ! j))) None
                       (runtime (begin_site_loop (take j config) (create_registry site)))))
                 \<and> (\<forall>i < length (heap (snd (Group_init
                        (set_name (fst (config ! j)) (snd (config ! j))) None
                        (runtime (begin_site_loop (take j config) (create_registry site)))))).
                       heap (runtime ?fin) ! i
                         = heap (snd (Group_init
                             (set_name (fst (config ! j)) (snd (config ! j))) None
                             (runtime (begin_site_loop (take j config) (create_registry site)))))
                           ! i)
                 \<and> (\<exists>g. reg (fst (config ! j)) = Some g
                       \<and> g < length (heap (runtime ?fin))
                       \<and> name (heap (runtime ?fin) ! g) = fst (config ! j)
                       \<and> parent (heap (runtime ?fin) ! g) = None
                       \<and> root (heap (runtime ?fin) ! g) = g
                       \<and> map (\<lambda>i. name (heap (runtime ?fin) ! i))
                            [g ..< g + count_groups (snd (config ! j))]
                           = fst (config ! j) # tl (names (snd (config ! j))))
                 \<and> group_name (set_name (fst (config ! j)) (snd (config ! j))) = fst (config ! j)
                 \<and> unnamed (items (set_name (fst (config ! j)) (snd (config ! j))))
                     = unnamed (items (snd (config ! j))))"
    using reg other each by (intro exI[of _ reg] conjI)
qed

theorem begin_site_registry_witness:
  "config_grouper (topics_site\<lparr>config_grouper := None\<rparr>) = None
   \<and> begin_site (topics_site\<lparr>config_grouper := None\<rparr>) = topics_site\<lparr>config_grouper := None\<rparr>
   \<and> config_grouper topics_site = Some [(''topics'', topics_grouping)]
   \<and> distinct (map fst [(''topics'', topics_grouping)])
   \<and> wf_grouping topics_grouping
   \<and> config_grouper (begin_site topics_site)
       = Some (map (\<lambda>(k, spec). (k, set_name k spec)) [(''topics'', topics_grouping)])"
proof -
  have a: "config_grouper (topics_site\<lparr>config_grouper := None\<rparr>) = None" by simp
  have b: "config_grouper topics_site = Some [(''topics'', topics_grouping)]
      \<and> distinct (map fst [(''topics'', topics_grouping)])
      \<and> (\<forall>spec \<in> snd ` set [(''topics'', topics_grouping)]. wf_grouping spec)"
    by (simp add: topics_site_def topics_grouping_def)
  from a begin_site_registry[of "topics_site\<lparr>config_grouper := None\<rparr>"]
  have 1: "begin_site (topics_site\<lparr>config_grouper := None\<rparr>)
      = topics_site\<lparr>config_grouper := None\<rparr>" by blast
  from b begin_site_registry[of topics_site "[(''topics'', topics_grouping)]"]
  have 2: "config_grouper (begin_site topics_site)
       = Some (map (\<lambda>(k, spec). (k, set_name k spec)) [(''topics'', topics_grouping)])"
    by blast
  have "wf_grouping topics_grouping" by (simp add: topics_grouping_def)
  with a b 1 2 show ?thesis by blast
qed

text \<open>
  Claim C8. For the grouping \<open>topics\<close> with the groups \<open>a\<close> and \<open>b\<close> and a node with
  two resources whose \<open>meta.topics\<close> are \<open>a\<close> and \<open>b\<close>: after \<open>begin_site\<close>,
  \<open>walk_resources_grouped_by_topics\<close> of the node yields the two resources in the order
  of the groups, and \<open>walk_topics_groups\<close> yields the groups named \<open>a\<close> and \<open>b\<close>
  in that order; the root group \<open>topics\<close> is left out, since no resource of the node
  matches it.
\<close>

theorem topics_example:
  "node_method_call (runtime (begin_site topics_site)) ''walk_resources_grouped_by_topics'' 3
     topics_node = Inr (Some (Yield_resources [resource_a, resource_b]))
   \<and> node_method_call (runtime (begin_site topics_site)) ''walk_topics_groups'' 3
     topics_node = Inr (Some (Yield_groups [1, 2]))
   \<and> map name (heap (runtime (begin_site topics_site))) = [''topics'', ''a'', ''b'']
   \<and> map_option (\<lambda>reg. reg ''topics'') (grouper (begin_site topics_site)) = Some (Some 0)
   \<and> list_resources 3 (runtime (begin_site topics_site)) 0 topics_node = Inr (Some [])"
  by code_simp

end
